theory Spec2Isabelle
  imports Complex_Main "HOL-Library.Multiset" "HOL-Library.Log_Nat" "HOL-Library.Sublist" "HOL-Library.List_Lexorder" "HOL-Library.Char_ord"
begin

section \<open>Numbers\<close>

text \<open>
  The TypeScript sources compute on JavaScript numbers. Counts that the hosting API
  delivers (stars, forks, byte sizes, contribution counts) are modelled as \<open>int\<close>;
  values that pass through a division or through \<open>toFixed\<close> (differences, percentages,
  averages) are modelled as rationals \<open>rat\<close>. A double is the rational it stands for,
  and the double that \<open>Number\<close> reads from a decimal with two places is identified with
  that decimal. Quotients and products are rounded to doubles (section Double
  arithmetic); the difference of two metric values is taken exactly, as it is in effect
  for integers and for values with two decimals.

  \<open>toFixed2 x\<close> is \<open>Number(x.toFixed(2))\<close>: the sign is split off, and the magnitude is
  rounded to the nearest multiple of \<open>1/100\<close>, the larger one on a tie.
\<close>

definition toFixed2 :: "rat \<Rightarrow> rat" where
  "toFixed2 x =
     (if x < 0 then - (of_int \<lfloor>(- x) * 100 + 1 / 2\<rfloor> / 100)
      else of_int \<lfloor>x * 100 + 1 / 2\<rfloor> / 100)"

section \<open>Comparison metrics (\<open>src/lib/github.ts\<close>)\<close>

datatype direction = Up | Down | Equal

text \<open>
  \<open>ComparisonMetric\<close> of \<open>src/lib/github/types.ts\<close>. The field \<open>id\<close> is named
  \<open>metric_id\<close> since \<open>id\<close> is the identity function of HOL.
\<close>

record ComparisonMetric =
  metric_id :: string
  label :: string
  description :: "string option"
  userA :: rat
  userB :: rat
  diff :: rat
  direction :: direction

definition SAFE_METRIC_DIFF_THRESHOLD :: rat where
  "SAFE_METRIC_DIFF_THRESHOLD = 1 / 100"

definition buildMetric :: "string \<Rightarrow> string \<Rightarrow> rat \<Rightarrow> rat \<Rightarrow> string option \<Rightarrow> ComparisonMetric" where
  "buildMetric i l a b d =
     (let df = toFixed2 (a - b);
          dir = (if \<bar>df\<bar> \<le> SAFE_METRIC_DIFF_THRESHOLD then Equal
                 else if df > 0 then Up else Down)
      in \<lparr>metric_id = i, label = l, description = d, userA = a, userB = b,
          diff = df, direction = dir\<rparr>)"


text \<open>
  \<open>selectHeroMetric\<close> filters, sorts with the comparator
  \<open>(a, b) => Math.abs(b.diff) - Math.abs(a.diff)\<close> and takes element 0, or \<open>null\<close>.
  \<open>Array.prototype.sort\<close> is stable, so the sorted array is the stable arrangement
  by descending \<open>\<bar>diff\<bar>\<close>, which \<open>sort_key\<close> (insertion sort on a key) computes.
\<close>

definition selectHeroMetric :: "ComparisonMetric list \<Rightarrow> ComparisonMetric option" where
  "selectHeroMetric metrics =
     (case sort_key (\<lambda>m. - \<bar>diff m\<bar>) (filter (\<lambda>m. direction m \<noteq> Equal) metrics) of
        [] \<Rightarrow> None
      | m # _ \<Rightarrow> Some m)"


section \<open>Double arithmetic\<close>

text \<open>
  Where the code divides or multiplies numbers that are not integers, the result is the
  double next to the exact one. \<open>fl x\<close> is that double: \<open>x\<close> rounded to 53 significant
  bits, to the nearest, and to the even significand on a tie. The range of the exponent
  is not bounded here, so nothing overflows and nothing is subnormal; integers are taken
  to lie below \<open>2^53\<close>, where every one of them is a double.

  \<open>ilog2 a\<close> is the exponent of a positive \<open>a\<close>, the integer \<open>e\<close> with
  \<open>2^e \<le> a < 2^(e+1)\<close>, found from the bit lengths of numerator and denominator.
\<close>

definition ilog2 :: "rat \<Rightarrow> int" where
  "ilog2 a =
     (let d = bitlen (fst (quotient_of a)) - bitlen (snd (quotient_of a))
      in if 2 powi d \<le> a then d else d - 1)"

definition round_half_even :: "rat \<Rightarrow> int" where
  "round_half_even t =
     (let f = \<lfloor>t\<rfloor>; r = t - of_int f
      in if r < 1 / 2 then f else if 1 / 2 < r then f + 1 else if even f then f else f + 1)"

definition fl :: "rat \<Rightarrow> rat" where
  "fl x =
     (if x = 0 then 0
      else
        let a = \<bar>x\<bar>;
            ulp = 2 powi (ilog2 a - 52);
            m = of_int (round_half_even (a / ulp)) * ulp
        in if x < 0 then - m else m)"

text \<open>The quotient and the product of two doubles, as \<open>/\<close> and \<open>*\<close> compute them.\<close>

definition fdiv :: "rat \<Rightarrow> rat \<Rightarrow> rat" where
  "fdiv x y = fl (x / y)"

definition fmul :: "rat \<Rightarrow> rat \<Rightarrow> rat" where
  "fmul x y = fl (x * y)"

section \<open>The TTL cache (\<open>src/lib/cache.ts\<close>)\<close>

text \<open>
  A JavaScript value of type \<open>V\<close> is either \<open>undefined\<close> or a proper value; the cache
  tests \<open>cached !== undefined\<close>, so the distinction is part of the model.
\<close>

datatype 'v jsval = Undefined | Defined 'v

text \<open>The field \<open>value\<close> of \<open>CacheEntry\<close> is named \<open>entry_value\<close>.\<close>

record 'v CacheEntry =
  entry_value :: "'v jsval"
  expiresAt :: int

record 'v TTLCache =
  store :: "string \<rightharpoonup> 'v CacheEntry"
  defaultTtlMs :: int

text \<open>
  \<open>Date.now()\<close> is the argument \<open>now\<close>, in milliseconds. Every method returns the
  cache it leaves behind. \<open>get\<close>, \<open>set\<close> and \<open>clear\<close> carry the class name, since
  \<open>set\<close> is a constant of HOL.
\<close>

definition TTLCache_get :: "'v TTLCache \<Rightarrow> int \<Rightarrow> string \<Rightarrow> 'v jsval \<times> 'v TTLCache" where
  "TTLCache_get c now key =
     (case store c key of
        None \<Rightarrow> (Undefined, c)
      | Some entry \<Rightarrow>
          if expiresAt entry < now
          then (Undefined, c\<lparr>store := (store c)(key := None)\<rparr>)
          else (entry_value entry, c))"

definition TTLCache_set :: "'v TTLCache \<Rightarrow> int \<Rightarrow> string \<Rightarrow> 'v jsval \<Rightarrow> int option \<Rightarrow> 'v TTLCache" where
  "TTLCache_set c now key v ttlMs =
     (let expires = now + (case ttlMs of None \<Rightarrow> defaultTtlMs c | Some t \<Rightarrow> t)
      in c\<lparr>store := (store c)(key \<mapsto> \<lparr>entry_value = v, expiresAt = expires\<rparr>)\<rparr>)"

text \<open>
  \<open>remember\<close>. The factory is a computation on the world outside the cache: it takes
  the world \<open>w\<close> and either rejects (\<open>Inl\<close>) or resolves to a value (\<open>Inr\<close>), leaving a
  new world. \<open>now\<close> is the clock when \<open>get\<close> runs, \<open>later\<close> the clock when the factory
  has settled and \<open>set\<close> runs. The second component of the result counts the
  invocations of the factory made by this call.
\<close>

definition TTLCache_remember ::
  "'v TTLCache \<Rightarrow> int \<Rightarrow> int \<Rightarrow> string \<Rightarrow> ('w \<Rightarrow> ('e + 'v jsval) \<times> 'w) \<Rightarrow> int option \<Rightarrow> 'w
     \<Rightarrow> ('e + 'v jsval) \<times> nat \<times> 'v TTLCache \<times> 'w" where
  "TTLCache_remember c now later key factory ttlMs w =
     (case TTLCache_get c now key of
        (cached, c1) \<Rightarrow>
          if cached \<noteq> Undefined then (Inr cached, 0, c1, w)
          else
            (case factory w of
               (Inl e, w') \<Rightarrow> (Inl e, 1, c1, w')
             | (Inr v, w') \<Rightarrow> (Inr v, 1, TTLCache_set c1 later key v ttlMs, w')))"

definition TTLCache_clear :: "'v TTLCache \<Rightarrow> string option \<Rightarrow> 'v TTLCache" where
  "TTLCache_clear c key =
     (case key of
        Some k \<Rightarrow> c\<lparr>store := (store c)(k := None)\<rparr>
      | None \<Rightarrow> c\<lparr>store := Map.empty\<rparr>)"

text \<open>A fresh cache, as \<open>new TTLCache(defaultTtlMs)\<close> builds it.\<close>

definition TTLCache_new :: "int \<Rightarrow> 'v TTLCache" where
  "TTLCache_new ttl = \<lparr>store = Map.empty, defaultTtlMs = ttl\<rparr>"

text \<open>
  Two factories on a world that is a counter of calls: the first resolves to the number
  of the call, the second always resolves to \<open>undefined\<close>.
\<close>

definition counting_factory :: "nat \<Rightarrow> (string + nat jsval) \<times> nat" where
  "counting_factory w = (Inr (Defined (Suc w)), Suc w)"

definition undefined_factory :: "nat \<Rightarrow> (string + nat jsval) \<times> nat" where
  "undefined_factory w = (Inr Undefined, Suc w)"

section \<open>The HTTP client (\<open>src/lib/github/client.ts\<close>)\<close>

text \<open>
  What \<open>await fetch(...)\<close> delivers is an input of the model: either the promise
  rejects (\<open>NetworkError\<close>) or it resolves to a response with a status, a \<open>link\<close>
  header and a body. \<open>body = None\<close> stands for a body that is not JSON, on which
  \<open>response.json()\<close> rejects. \<open>response.ok\<close> holds for the statuses 200 to 299.
\<close>

record 'b HttpResponse =
  status :: nat
  link :: "string option"
  body :: "'b option"

datatype 'b fetched = NetworkError | Response "'b HttpResponse"

definition response_ok :: "'b HttpResponse \<Rightarrow> bool" where
  "response_ok r = (200 \<le> status r \<and> status r \<le> 299)"

text \<open>
  What the functions throw. \<open>GitHubApiError message status data\<close> is the class of
  \<open>client.ts\<close>; the other constructors are the rejections that pass through
  unwrapped: of \<open>fetch\<close>, of \<open>response.json()\<close>, of spreading a value that is not
  an array, and of reading a property of \<open>null\<close>.
\<close>

datatype 'p thrown =
    GitHubApiError string nat 'p
  | FetchError
  | JsonError
  | NotIterable
  | TypeError

text \<open>The decimal digits of a number, as a template literal prints a status.\<close>

fun show_nat :: "nat \<Rightarrow> string" where
  "show_nat n =
     (if n < 10 then [char_of (48 + n)]
      else show_nat (n div 10) @ [char_of (48 + n mod 10)])"

declare show_nat.simps [simp del]

text \<open>
  \<open>GraphQlResponse<T>\<close>: both fields are optional; an error is represented by its
  \<open>message\<close>. A body that is JSON is the value \<open>null\<close> or a value read through these
  two fields (a JSON value without them, such as \<open>{}\<close>, has both absent).
\<close>

record 'a GraphQlResponse =
  data :: "'a option"
  errors :: "string list option"

datatype 'a gql_body = JsonNull | Payload "'a GraphQlResponse"

text \<open>
  \<open>githubGraphqlFetch\<close>. \<open>token\<close> is \<open>env.GITHUB_ACCESS_TOKEN\<close>, falsy when it is
  undefined or the empty string. The result \<open>Inr None\<close> is \<open>null\<close>.
  \<open>json_or_empty\<close> is \<open>await response.json().catch(() => ({}))\<close>: only a body that
  is not JSON is replaced by \<open>{}\<close>. \<open>errors_length_truthy\<close> is the truth value of
  \<open>payload.errors?.length\<close>. When the payload is \<open>null\<close>, reading \<open>payload.errors\<close>
  throws a \<open>TypeError\<close>: in the condition on a success, and in the argument of the
  constructor of the error otherwise.
\<close>

definition json_or_empty :: "'a gql_body HttpResponse \<Rightarrow> 'a gql_body" where
  "json_or_empty response =
     (case body response of
        None \<Rightarrow> Payload \<lparr>data = None, errors = None\<rparr>
      | Some p \<Rightarrow> p)"

definition errors_length_truthy :: "'a GraphQlResponse \<Rightarrow> bool" where
  "errors_length_truthy payload =
     (case errors payload of None \<Rightarrow> False | Some es \<Rightarrow> length es \<noteq> 0)"

definition githubGraphqlFetch ::
  "string option \<Rightarrow> 'a gql_body fetched \<Rightarrow> 'a GraphQlResponse thrown + 'a option" where
  "githubGraphqlFetch token net =
     (if token = None \<or> token = Some [] then Inr None
      else
        (case net of
           NetworkError \<Rightarrow> Inl FetchError
         | Response response \<Rightarrow>
             (case json_or_empty response of
                JsonNull \<Rightarrow> Inl TypeError
              | Payload payload \<Rightarrow>
                  if \<not> response_ok response \<or> errors_length_truthy payload
                  then Inl (GitHubApiError
                         (case errors payload of
                            Some (m # _) \<Rightarrow> m
                          | _ \<Rightarrow> ''GitHub GraphQL API error ('' @
                                 show_nat (status response) @ '')'')
                         (status response) payload)
                  else Inr (data payload))))"

section \<open>Fetching the repositories (\<open>src/lib/github.ts\<close>)\<close>

text \<open>
  \<open>RestRepo\<close>, with the fields that the aggregation reads: the four counters and the
  primary language (\<open>None\<close> is \<open>null\<close>), and the full name.
\<close>

record RestRepo =
  full_name :: string
  stargazers_count :: int
  watchers_count :: int
  forks_count :: int
  open_issues_count :: int
  language :: "string option"

text \<open>
  The JSON body of a repository page: an array of repositories, or an object, which may
  carry a \<open>message\<close>.
\<close>

datatype rest_body = Repos "RestRepo list" | ErrorObject "string option"

definition perPage :: nat where
  "perPage = 100"

definition rel_next :: string where
  "rel_next = ''rel='' @ [CHR 0x22] @ ''next'' @ [CHR 0x22]"

text \<open>
  The loop of \<open>fetchUserRepositories\<close>, from the page \<open>page\<close> on, with the
  repositories collected so far. \<open>net p\<close> is what the request for page \<open>p\<close> delivers.
  \<open>linkHeader?.includes(...)\<close> is \<open>sublist\<close>, the test for a contiguous part.
\<close>

function fetchPages ::
  "string \<Rightarrow> (nat \<Rightarrow> rest_body fetched) \<Rightarrow> nat \<Rightarrow> RestRepo list \<Rightarrow> rest_body thrown + RestRepo list" where
  "fetchPages login net page repositories =
     (case net page of
        NetworkError \<Rightarrow> Inl FetchError
      | Response response \<Rightarrow>
          if \<not> response_ok response then
            (let errorPayload = (case body response of None \<Rightarrow> ErrorObject None | Some p \<Rightarrow> p)
             in Inl (GitHubApiError
                  (case errorPayload of
                     ErrorObject (Some m) \<Rightarrow> m
                   | _ \<Rightarrow> ''Failed to fetch repositories for '' @ login @ '' ('' @
                          show_nat (status response) @ '')'')
                  (status response) errorPayload))
          else
            (case body response of
               None \<Rightarrow> Inl JsonError
             | Some (ErrorObject _) \<Rightarrow> Inl NotIterable
             | Some (Repos batch) \<Rightarrow>
                 let repositories' = repositories @ batch;
                     hasNextPage = (case link response of
                                      None \<Rightarrow> False
                                    | Some l \<Rightarrow> sublist rel_next l)
                 in if \<not> hasNextPage \<or> length batch < perPage \<or> page \<ge> 3
                    then Inr repositories'
                    else fetchPages login net (page + 1) repositories'))"
  by pat_completeness auto
termination
  by (relation "measure (\<lambda>(login, net, page, repositories). 3 - page)") auto

declare fetchPages.simps [simp del]

definition fetchUserRepositories ::
  "string \<Rightarrow> (nat \<Rightarrow> rest_body fetched) \<Rightarrow> rest_body thrown + RestRepo list" where
  "fetchUserRepositories login net = fetchPages login net 1 []"

text \<open>\<open>computeTotals\<close>: a \<open>reduce\<close> from the left over the repositories.\<close>

record totals =
  stars :: int
  forks :: int
  watchers :: int
  issues :: int

definition computeTotals :: "RestRepo list \<Rightarrow> totals" where
  "computeTotals repos =
     foldl (\<lambda>acc repo.
              acc\<lparr>stars := stars acc + stargazers_count repo,
                  forks := forks acc + forks_count repo,
                  watchers := watchers acc + watchers_count repo,
                  issues := issues acc + open_issues_count repo\<rparr>)
           \<lparr>stars = 0, forks = 0, watchers = 0, issues = 0\<rparr> repos"

text \<open>
  Reading a server: the batch that page \<open>p\<close> delivers when the request succeeds with a
  JSON array, and whether the page closes the pagination (no \<open>rel="next"\<close> in the
  \<open>link\<close> header, or fewer than \<open>perPage\<close> items).
\<close>

definition page_batch :: "(nat \<Rightarrow> rest_body fetched) \<Rightarrow> nat \<Rightarrow> RestRepo list option" where
  "page_batch net p =
     (case net p of
        NetworkError \<Rightarrow> None
      | Response r \<Rightarrow>
          if response_ok r then (case body r of Some (Repos b) \<Rightarrow> Some b | _ \<Rightarrow> None)
          else None)"

definition page_has_next :: "(nat \<Rightarrow> rest_body fetched) \<Rightarrow> nat \<Rightarrow> bool" where
  "page_has_next net p =
     (case net p of
        NetworkError \<Rightarrow> False
      | Response r \<Rightarrow> (case link r of None \<Rightarrow> False | Some l \<Rightarrow> sublist rel_next l))"

definition last_page :: "(nat \<Rightarrow> rest_body fetched) \<Rightarrow> nat \<Rightarrow> bool" where
  "last_page net p =
     (\<not> page_has_next net p \<or> (case page_batch net p of None \<Rightarrow> True | Some b \<Rightarrow> length b < perPage))"

text \<open>
  A server for the examples: a full page of repositories with one star each, with a
  continuation link, on every page up to page \<open>full\<close>, and \<open>rest\<close> repositories
  without a link on the pages after it.
\<close>

definition one_star :: RestRepo where
  "one_star = \<lparr>full_name = ''octocat/hello'', stargazers_count = 1, watchers_count = 2,
     forks_count = 3, open_issues_count = 4, language = Some ''C''\<rparr>"

definition example_link :: string where
  "example_link = ''<https://api.github.com/user/1/repos?page=2>; '' @ rel_next"

definition example_server :: "nat \<Rightarrow> nat \<Rightarrow> nat \<Rightarrow> rest_body fetched" where
  "example_server full rest p =
     (if p \<le> full
      then Response \<lparr>status = 200, link = Some example_link,
             body = Some (Repos (replicate perPage one_star))\<rparr>
      else Response \<lparr>status = 200, link = None, body = Some (Repos (replicate rest one_star))\<rparr>)"

section \<open>Contribution statistics (\<open>src/lib/github.ts\<close>)\<close>

text \<open>
  The contribution calendar of the graph query. A date is an ISO day such as
  \<open>2024-01-31\<close>; on such strings \<open>localeCompare\<close> is the lexicographic order of the
  characters, which is the order of \<open>string\<close> here.
\<close>

record ContributionDay =
  date :: string
  contributionCount :: int

record ContributionWeek =
  firstDay :: string
  contributionDays :: "ContributionDay list"

record ContributionCalendar =
  totalContributions :: int
  weeks :: "ContributionWeek list"

record GraphqlContributionCalendar =
  contributionCalendar :: ContributionCalendar
  totalCommitContributions :: int
  totalIssueContributions :: int
  totalPullRequestContributions :: int
  totalPullRequestReviewContributions :: int
  restrictedContributionsCount :: int

text \<open>
  \<open>ContributionStats\<close> of \<open>types.ts\<close>. The field \<open>total\<close> is named
  \<open>total_contributions\<close> and the field \<open>total\<close> of a week \<open>week_total\<close>, since
  \<open>total\<close> is a constant of HOL; the field \<open>issues\<close> of the breakdown is named
  \<open>issue_contributions\<close>, apart from the field of the totals.
\<close>

record WeeklyContribution =
  weekStart :: string
  week_total :: int

record Streak =
  current :: nat
  longest :: nat

record Breakdown =
  commits :: int
  pullRequests :: int
  reviews :: int
  issue_contributions :: int
  restricted :: int

record ContributionStats =
  total_contributions :: int
  lastYear :: int
  weeklyAverage :: rat
  weeklyMax :: int
  weeklySeries :: "WeeklyContribution list"
  streak :: Streak
  breakdown :: Breakdown

text \<open>
  The body of the loop over the sorted days, on the pair of \<open>currentStreak\<close> and
  \<open>longestStreak\<close>.
\<close>

definition streak_step :: "nat \<times> nat \<Rightarrow> ContributionDay \<Rightarrow> nat \<times> nat" where
  "streak_step s day =
     (case s of (currentStreak, longestStreak) \<Rightarrow>
        if contributionCount day > 0
        then (currentStreak + 1, max longestStreak (currentStreak + 1))
        else (0, longestStreak))"

text \<open>
  \<open>weeks.flatMap(...).sort((a, b) => a.date.localeCompare(b.date))\<close>: the sort is
  stable, as \<open>sort_key\<close> is.
\<close>

definition sorted_days :: "ContributionWeek list \<Rightarrow> ContributionDay list" where
  "sorted_days ws = sort_key date (concat (map contributionDays ws))"

definition aggregateContributionStats ::
  "GraphqlContributionCalendar option \<Rightarrow> ContributionStats option" where
  "aggregateContributionStats data' =
     (case data' of
        None \<Rightarrow> None
      | Some d \<Rightarrow>
          let ws = weeks (contributionCalendar d);
              series = map (\<lambda>week.
                         \<lparr>weekStart = firstDay week,
                          week_total = foldl (\<lambda>sum day. sum + contributionCount day) 0
                                         (contributionDays week)\<rparr>) ws;
              weeklyTotals = map week_total series;
              average = (if length weeklyTotals = 0 then 0
                         else toFixed2 (fdiv (of_int (foldl (+) 0 weeklyTotals))
                                          (of_nat (length weeklyTotals))));
              maximum = (if length weeklyTotals \<noteq> 0 then Max (set weeklyTotals) else 0);
              s = foldl streak_step (0, 0) (sorted_days ws)
          in Some \<lparr>total_contributions = totalContributions (contributionCalendar d),
                   lastYear = foldl (+) 0 weeklyTotals,
                   weeklyAverage = average,
                   weeklyMax = maximum,
                   weeklySeries = series,
                   streak = \<lparr>current = fst s, longest = snd s\<rparr>,
                   breakdown = \<lparr>commits = totalCommitContributions d,
                                pullRequests = totalPullRequestContributions d,
                                reviews = totalPullRequestReviewContributions d,
                                issue_contributions = totalIssueContributions d,
                                restricted = restrictedContributionsCount d\<rparr>\<rparr>)"

text \<open>
  The calendar of the example: the eight days from 2024-01-01 on, in two weeks, with the
  counts 1, 1, 0, 1, 1, 1, 0, 0.
\<close>

definition example_calendar :: GraphqlContributionCalendar where
  "example_calendar =
     \<lparr>contributionCalendar =
        \<lparr>totalContributions = 5,
         weeks =
           [\<lparr>firstDay = ''2024-01-01'',
             contributionDays =
               [\<lparr>date = ''2024-01-01'', contributionCount = 1\<rparr>,
                \<lparr>date = ''2024-01-02'', contributionCount = 1\<rparr>,
                \<lparr>date = ''2024-01-03'', contributionCount = 0\<rparr>,
                \<lparr>date = ''2024-01-04'', contributionCount = 1\<rparr>,
                \<lparr>date = ''2024-01-05'', contributionCount = 1\<rparr>,
                \<lparr>date = ''2024-01-06'', contributionCount = 1\<rparr>,
                \<lparr>date = ''2024-01-07'', contributionCount = 0\<rparr>]\<rparr>,
            \<lparr>firstDay = ''2024-01-08'',
             contributionDays =
               [\<lparr>date = ''2024-01-08'', contributionCount = 0\<rparr>]\<rparr>]\<rparr>,
      totalCommitContributions = 5,
      totalIssueContributions = 0,
      totalPullRequestContributions = 0,
      totalPullRequestReviewContributions = 0,
      restrictedContributionsCount = 0\<rparr>"

text \<open>A day counts for a streak when it has a contribution.\<close>

definition active :: "ContributionDay \<Rightarrow> bool" where
  "active day = (contributionCount day > 0)"

section \<open>Language statistics (\<open>src/lib/github.ts\<close>)\<close>

text \<open>
  A language edge of the graph query, \<open>{ size, node: { name, color } }\<close>, flattened;
  \<open>size\<close> is named \<open>edge_size\<close>, since \<open>size\<close> is a constant of HOL. Of a
  \<open>GraphqlRepository\<close> the aggregation reads \<open>languages.edges\<close> only.
\<close>

record LanguageEdge =
  edge_size :: int
  node_name :: string
  node_color :: "string option"

record GraphqlRepository =
  languages_edges :: "LanguageEdge list"

text \<open>
  The values of the map \<open>languageTotals\<close>, and \<open>LanguageStat\<close> of \<open>types.ts\<close>. A
  colour that is \<open>null\<close> or \<open>undefined\<close> is \<open>None\<close>.
\<close>

record LanguageTotal =
  total_bytes :: int
  total_color :: "string option"
  total_repoCount :: int

record LanguageStat =
  name :: string
  bytes :: int
  percentage :: rat
  color :: "string option"
  repoCount :: int

text \<open>
  A JavaScript \<open>Map\<close> keeps its keys in the order of their first insertion, and the
  result is read in that order, so the map is a list of pairs: \<open>map_of\<close> is \<open>get\<close>,
  and \<open>Map_set\<close> replaces the value of a key in place or appends a new key.
\<close>

fun Map_set :: "('k \<times> 'v) list \<Rightarrow> 'k \<Rightarrow> 'v \<Rightarrow> ('k \<times> 'v) list" where
  "Map_set [] k v = [(k, v)]"
| "Map_set ((k', v') # m) k v = (if k' = k then (k, v) # m else (k', v') # Map_set m k v)"

text \<open>
  The body of the loop over the edges of one repository, on the map and the set
  \<open>seenLanguages\<close> (a list here).
\<close>

definition edge_step ::
  "(string \<times> LanguageTotal) list \<times> string list \<Rightarrow> LanguageEdge
     \<Rightarrow> (string \<times> LanguageTotal) list \<times> string list" where
  "edge_step s edge =
     (case s of (languageTotals, seenLanguages) \<Rightarrow>
        let current = (case map_of languageTotals (node_name edge) of
                         None \<Rightarrow> \<lparr>total_bytes = 0, total_color = node_color edge,
                                   total_repoCount = 0\<rparr>
                       | Some c \<Rightarrow> c);
            current1 = current\<lparr>total_bytes := total_bytes current + edge_size edge\<rparr>;
            fresh = (node_name edge \<notin> set seenLanguages);
            current2 = (if fresh then current1\<lparr>total_repoCount := total_repoCount current1 + 1\<rparr>
                        else current1);
            seenLanguages' = (if fresh then node_name edge # seenLanguages else seenLanguages);
            current3 = current2\<lparr>total_color :=
                         (case total_color current2 of
                            None \<Rightarrow> node_color edge
                          | Some c \<Rightarrow> Some c)\<rparr>
        in (Map_set languageTotals (node_name edge) current3, seenLanguages'))"

definition gql_repo_step ::
  "(string \<times> LanguageTotal) list \<Rightarrow> GraphqlRepository \<Rightarrow> (string \<times> LanguageTotal) list" where
  "gql_repo_step languageTotals repo =
     fst (foldl edge_step (languageTotals, []) (languages_edges repo))"

text \<open>
  The body of the loop over the REST repositories: a repository whose language is
  \<open>null\<close> or the empty string is skipped.
\<close>

definition rest_repo_step ::
  "(string \<times> LanguageTotal) list \<Rightarrow> RestRepo \<Rightarrow> (string \<times> LanguageTotal) list" where
  "rest_repo_step languageTotals repo =
     (case language repo of
        None \<Rightarrow> languageTotals
      | Some l \<Rightarrow>
          if l = [] then languageTotals
          else
            let current = (case map_of languageTotals l of
                             None \<Rightarrow> \<lparr>total_bytes = 0, total_color = None, total_repoCount = 0\<rparr>
                           | Some c \<Rightarrow> c)
            in Map_set languageTotals l
                 (current\<lparr>total_bytes := total_bytes current + 1,
                          total_repoCount := total_repoCount current + 1\<rparr>))"

text \<open>
  The map after the loops. \<open>gqlRepos?.length\<close> is truthy for a list that is present
  and not empty.
\<close>

definition languageTotals ::
  "RestRepo list \<Rightarrow> GraphqlRepository list option \<Rightarrow> (string \<times> LanguageTotal) list" where
  "languageTotals restRepos gqlRepos =
     (case gqlRepos of
        Some (r # rs) \<Rightarrow> foldl gql_repo_step [] (r # rs)
      | _ \<Rightarrow> foldl rest_repo_step [] restRepos)"

definition totalBytes :: "(string \<times> LanguageTotal) list \<Rightarrow> int" where
  "totalBytes m = foldl (\<lambda>sum entry. sum + total_bytes entry) 0 (map snd m)"

text \<open>
  \<open>toStat\<close> is the callback of \<open>.map(([name, entry]) => ...)\<close>; \<open>allBytes\<close> is
  \<open>totalBytes\<close>, the bytes of all languages together. The percentage is
  \<open>Number(((entry.bytes / totalBytes) * 100).toFixed(2))\<close>: the quotient and the product
  are doubles, and \<open>toFixed\<close> rounds the exact value of the product.
\<close>

definition toStat :: "int \<Rightarrow> string \<times> LanguageTotal \<Rightarrow> LanguageStat" where
  "toStat allBytes p =
     (case p of (n, entry) \<Rightarrow>
        \<lparr>name = n,
         bytes = total_bytes entry,
         percentage =
           (if allBytes \<noteq> 0
            then toFixed2 (fmul (fdiv (of_int (total_bytes entry)) (of_int allBytes)) 100)
            else 0),
         color = total_color entry,
         repoCount = total_repoCount entry\<rparr>)"

definition aggregateLanguageStats ::
  "RestRepo list \<Rightarrow> GraphqlRepository list option \<Rightarrow> LanguageStat list" where
  "aggregateLanguageStats restRepos gqlRepos =
     (let m = languageTotals restRepos gqlRepos
      in take 8 (sort_key (\<lambda>s. - bytes s) (map (toStat (totalBytes m)) m)))"

text \<open>
  An input of the graph query: one repository with 29996 bytes of TypeScript and 2 bytes
  each of CSS and of HTML.
\<close>

definition example_gql :: "GraphqlRepository list" where
  "example_gql =
     [\<lparr>languages_edges =
         [\<lparr>edge_size = 29996, node_name = ''TypeScript'', node_color = Some ''#3178c6''\<rparr>,
          \<lparr>edge_size = 2, node_name = ''CSS'', node_color = None\<rparr>,
          \<lparr>edge_size = 2, node_name = ''HTML'', node_color = Some ''#e34c26''\<rparr>]\<rparr>]"

subsection \<open>The languages of the input\<close>

text \<open>
  What the specification says the map holds, read off the input itself. With graph data,
  the languages are the names on the edges of all repositories, and the bytes of a
  language are the sizes of all its edges together. Without graph data, the languages are
  the primary languages of the REST repositories (other than the empty string), and each
  repository counts one unit for its language.
\<close>

definition gql_language_names :: "GraphqlRepository list \<Rightarrow> string set" where
  "gql_language_names repos = (\<Union>repo\<in>set repos. node_name ` set (languages_edges repo))"

definition gql_language_bytes :: "GraphqlRepository list \<Rightarrow> string \<Rightarrow> int" where
  "gql_language_bytes repos l =
     (\<Sum>repo\<leftarrow>repos. \<Sum>edge\<leftarrow>filter (\<lambda>e. node_name e = l) (languages_edges repo). edge_size edge)"

definition rest_language_names :: "RestRepo list \<Rightarrow> string set" where
  "rest_language_names repos = {l. l \<noteq> [] \<and> (\<exists>repo\<in>set repos. language repo = Some l)}"

definition rest_language_bytes :: "RestRepo list \<Rightarrow> string \<Rightarrow> int" where
  "rest_language_bytes repos l = int (length (filter (\<lambda>repo. language repo = Some l) repos))"

definition input_language_names :: "RestRepo list \<Rightarrow> GraphqlRepository list option \<Rightarrow> string set" where
  "input_language_names restRepos gqlRepos =
     (case gqlRepos of
        Some (r # rs) \<Rightarrow> gql_language_names (r # rs)
      | _ \<Rightarrow> rest_language_names restRepos)"

definition input_language_bytes :: "RestRepo list \<Rightarrow> GraphqlRepository list option \<Rightarrow> string \<Rightarrow> int" where
  "input_language_bytes restRepos gqlRepos l =
     (case gqlRepos of
        Some (r # rs) \<Rightarrow> gql_language_bytes (r # rs) l
      | _ \<Rightarrow> rest_language_bytes restRepos l)"

text \<open>The bytes that a map holds for a language, 0 for a language that it lacks.\<close>

definition bytes_in :: "(string \<times> LanguageTotal) list \<Rightarrow> string \<Rightarrow> int" where
  "bytes_in m l = (case map_of m l of None \<Rightarrow> 0 | Some c \<Rightarrow> total_bytes c)"

section \<open>Normalising a handle (\<open>src/lib/github.ts\<close>)\<close>

text \<open>
  A string is a list of code units below 256. \<open>is_space\<close> holds for the code units
  that \<open>String.prototype.trim\<close> removes: tab, line feed, vertical tab, form feed,
  carriage return, space and the no-break space.
\<close>

definition is_space :: "char \<Rightarrow> bool" where
  "is_space c = (c \<in> set [CHR 0x09, CHR 0x0A, CHR 0x0B, CHR 0x0C, CHR 0x0D, CHR 0x20, CHR 0xA0])"

definition trim :: "string \<Rightarrow> string" where
  "trim s = rev (dropWhile is_space (rev (dropWhile is_space s)))"

text \<open>
  Letters without their case. \<open>lower_ascii\<close> folds \<open>A\<close> to \<open>Z\<close> only, as the flag
  \<open>i\<close> of a regular expression does for a pattern of ASCII characters;
  \<open>toLowerCase\<close> folds the capital letters of Latin-1 as well.
\<close>

definition lower_ascii :: "char \<Rightarrow> char" where
  "lower_ascii c =
     (if 65 \<le> (of_char c :: nat) \<and> (of_char c :: nat) \<le> 90 then char_of (of_char c + 32 :: nat) else c)"

definition toLowerCase :: "string \<Rightarrow> string" where
  "toLowerCase s =
     map (\<lambda>c. if (65 \<le> (of_char c :: nat) \<and> (of_char c :: nat) \<le> 90) \<or>
                  (192 \<le> (of_char c :: nat) \<and> (of_char c :: nat) \<le> 222 \<and> (of_char c :: nat) \<noteq> 215)
               then char_of (of_char c + 32 :: nat) else c) s"

text \<open>
  The regular expression \<open>/github\.com\/([^/?#]+)/i\<close>. \<open>host_here s\<close> holds when
  \<open>s\<close> starts with \<open>github.com/\<close> in any case; \<open>segment\<close> is the longest run
  of characters other than \<open>/\<close>, \<open>?\<close> and \<open>#\<close>. \<open>urlMatch\<close> tries the positions
  from the left and returns the group of the first match, as \<open>String.prototype.match\<close>
  does.
\<close>

definition host_here :: "string \<Rightarrow> bool" where
  "host_here s = (map lower_ascii (take 11 s) = ''github.com/'')"

definition segment :: "string \<Rightarrow> string" where
  "segment s = takeWhile (\<lambda>c. c \<notin> set ''/?#'') s"

fun urlMatch :: "string \<Rightarrow> string option" where
  "urlMatch [] = None"
| "urlMatch (c # cs) =
     (if host_here (c # cs) \<and> segment (drop 11 (c # cs)) \<noteq> []
      then Some (segment (drop 11 (c # cs)))
      else urlMatch cs)"

datatype js_error = Error string

definition sanitizeLogin :: "string \<Rightarrow> js_error + string" where
  "sanitizeLogin input =
     (let trimmed = trim input
      in if trimmed = [] then Inl (Error ''GitHub username cannot be empty'')
         else
           (case urlMatch trimmed of
              Some h \<Rightarrow> Inr h
            | None \<Rightarrow>
                (case trimmed of
                   c # cs \<Rightarrow> if c = CHR ''@'' then Inr cs else Inr trimmed
                 | [] \<Rightarrow> Inr trimmed)))"

text \<open>The key of the insights cache, \<open>login.toLowerCase()\<close>.\<close>

definition cacheKey :: "string \<Rightarrow> js_error + string" where
  "cacheKey input = map_sum id toLowerCase (sanitizeLogin input)"

text \<open>
  A handle of the hosting platform: not empty, of letters, digits and hyphens.
\<close>

definition handle_char :: "char \<Rightarrow> bool" where
  "handle_char c =
     (c \<in> set ''abcdefghijklmnopqrstuvwxyzABCDEFGHIJKLMNOPQRSTUVWXYZ0123456789-'')"

definition valid_handle :: "string \<Rightarrow> bool" where
  "valid_handle h = (h \<noteq> [] \<and> list_all handle_char h)"

section \<open>Comparing two users (\<open>src/lib/github.ts\<close>)\<close>

text \<open>
  \<open>GitHubUserInsights\<close>, with the fields that the comparison and the narrative read.
\<close>

record GitHubUserInsights =
  login :: string
  followers :: int
  publicRepos :: int
  totals :: totals
  languages :: "LanguageStat list"
  contributions :: "ContributionStats option"

record MemePrompt =
  templateId :: string
  topText :: string
  bottomText :: string

text \<open>
  \<open>ComparisonResult\<close>. Its fields \<open>userA\<close> and \<open>userB\<close> are named
  \<open>userA_insights\<close> and \<open>userB_insights\<close>, apart from the values \<open>userA\<close> and
  \<open>userB\<close> of a metric.
\<close>

record ComparisonResult =
  userA_insights :: GitHubUserInsights
  userB_insights :: GitHubUserInsights
  metrics :: "ComparisonMetric list"
  heroMetric :: "ComparisonMetric option"
  summary :: string
  memePrompt :: "MemePrompt option"


subsection \<open>The summary and the meme prompt\<close>

























section \<open>Rounding to two decimals\<close>









section \<open>Rounding to a double\<close>

lemma powi_nat: "0 \<le> e \<Longrightarrow> (2 :: rat) powi e = 2 ^ nat e"
  by (simp add: power_int_def)

lemma ilog2_bounds:
  assumes "0 < a"
  shows "2 powi (ilog2 a) \<le> a" and "a < 2 powi (ilog2 a + 1)"
proof -
  obtain p q where pq: "quotient_of a = (p, q)" by (cases "quotient_of a")
  then have q: "0 < q" and a: "a = of_int p / of_int q"
    by (simp_all add: quotient_of_denom_pos quotient_of_div)
  from assms a q have p: "0 < p" by (simp add: zero_less_divide_iff)
  let ?bp = "bitlen p" and ?bq = "bitlen q"
  let ?d = "?bp - ?bq"
  from p q have bp1: "1 \<le> ?bp" and bq1: "1 \<le> ?bq"
    using bitlen_eq_zero_iff [of p] bitlen_eq_zero_iff [of q] bitlen_nonneg [of p] bitlen_nonneg [of q]
    by linarith+
  from bitlen_bounds [OF p] have plo: "(2 :: rat) ^ nat (?bp - 1) \<le> of_int p"
    and phi: "of_int p < (2 :: rat) ^ nat ?bp"
    by (metis of_int_le_iff of_int_numeral of_int_power, metis of_int_less_iff of_int_numeral of_int_power)
  from bitlen_bounds [OF q] have qlo: "(2 :: rat) ^ nat (?bq - 1) \<le> of_int q"
    and qhi: "of_int q < (2 :: rat) ^ nat ?bq"
    by (metis of_int_le_iff of_int_numeral of_int_power, metis of_int_less_iff of_int_numeral of_int_power)
  have qpos: "(0 :: rat) < of_int q" using q by simp
  have lo: "2 powi (?d - 1) \<le> a"
  proof -
    have "?d - 1 = (?bp - 1) - ?bq" by simp
    then have "(2 :: rat) powi (?d - 1) = 2 powi ((?bp - 1) - ?bq)" by (simp only:)
    also have "\<dots> = 2 powi (?bp - 1) / 2 powi ?bq"
      by (rule power_int_diff) simp
    also have "\<dots> = 2 ^ nat (?bp - 1) / 2 ^ nat ?bq"
      using bp1 bq1 by (simp add: powi_nat)
    also have "\<dots> \<le> of_int p / 2 ^ nat ?bq"
      using plo by (simp add: divide_right_mono)
    also have "\<dots> \<le> of_int p / of_int q"
      using qhi qpos p by (intro divide_left_mono) (simp_all add: less_imp_le)
    finally show ?thesis by (simp add: a)
  qed
  have hi: "a < 2 powi (?d + 1)"
  proof -
    have "a = of_int p / of_int q" by (rule a)
    also have "\<dots> < 2 ^ nat ?bp / of_int q"
      using phi qpos by (simp add: divide_strict_right_mono)
    also have "\<dots> \<le> 2 ^ nat ?bp / 2 ^ nat (?bq - 1)"
      using qlo qpos by (intro divide_left_mono) simp_all
    also have "\<dots> = 2 powi ?bp / 2 powi (?bq - 1)"
      using bp1 bq1 by (simp add: powi_nat)
    also have "\<dots> = 2 powi (?bp - (?bq - 1))"
      by (rule power_int_diff [symmetric]) simp
    also have "?bp - (?bq - 1) = ?d + 1" by simp
    finally show ?thesis .
  qed
  show "2 powi (ilog2 a) \<le> a"
    using lo by (simp add: ilog2_def pq Let_def)
  show "a < 2 powi (ilog2 a + 1)"
    using hi by (auto simp: ilog2_def pq Let_def not_le)
qed

lemma round_half_even_near:
  "\<bar>of_int (round_half_even t) - t\<bar> \<le> 1 / 2"
proof -
  show ?thesis
    by (auto simp: round_half_even_def Let_def abs_if; linarith)
qed

lemma fl_nonneg_bounds:
  assumes "0 \<le> x"
  shows "0 \<le> fl x" and "fl x \<le> x * (1 + 1 / 2 ^ 53)"
proof -
  have "0 \<le> fl x \<and> fl x \<le> x * (1 + 1 / 2 ^ 53)"
  proof (cases "x = 0")
    case True
    then show ?thesis by (simp add: fl_def)
  next
    case False
    with assms have x: "0 < x" by simp
    define ulp :: rat where "ulp = 2 powi (ilog2 x - 52)"
    define m where "m = round_half_even (x / ulp)"
    have upos: "0 < ulp" by (simp add: ulp_def)
    have fl: "fl x = of_int m * ulp"
      using x by (simp add: fl_def Let_def ulp_def m_def)
    have "ulp = 2 powi (ilog2 x) / 2 ^ 52"
      by (simp add: ulp_def power_int_diff)
    also have "\<dots> \<le> x / 2 ^ 52"
      using ilog2_bounds(1) [OF x] by (simp add: divide_right_mono)
    finally have ulp: "ulp \<le> x / 2 ^ 52" .
    then have big: "2 ^ 52 \<le> x / ulp"
      using upos by (simp add: le_divide_eq mult.commute pos_divide_le_eq)
    from round_half_even_near [of "x / ulp"]
    have near: "x / ulp - 1 / 2 \<le> of_int m" "of_int m \<le> x / ulp + 1 / 2"
      unfolding m_def by linarith+
    from near(1) big have "(0 :: rat) \<le> of_int m" by simp
    then have nonneg: "0 \<le> fl x" using upos by (simp add: fl)
    have "fl x \<le> (x / ulp + 1 / 2) * ulp"
      unfolding fl using near(2) upos by (intro mult_right_mono) simp_all
    also have "\<dots> = x + ulp / 2" using upos by (simp add: algebra_simps)
    also have "\<dots> \<le> x + (x / 2 ^ 52) / 2" using ulp by simp
    also have "\<dots> = x * (1 + 1 / 2 ^ 53)" by (simp add: algebra_simps)
    finally show ?thesis using nonneg by simp
  qed
  then show "0 \<le> fl x" and "fl x \<le> x * (1 + 1 / 2 ^ 53)" by simp_all
qed

lemma toFixed2_hundredth: "\<exists>k :: int. toFixed2 x = of_int k / 100"
proof (cases "x < 0")
  case True
  then have "toFixed2 x = of_int (- \<lfloor>(- x) * 100 + 1 / 2\<rfloor>) / 100" by (simp add: toFixed2_def)
  then show ?thesis by blast
next
  case False
  then have "toFixed2 x = of_int \<lfloor>x * 100 + 1 / 2\<rfloor> / 100" by (simp add: toFixed2_def)
  then show ?thesis by blast
qed

text \<open>
  The double matters to the percentages: the share of 29 bytes among 800 is 3.625, but
  the double of \<open>29 / 800\<close> times 100 lies just below it, so the code yields 3.62 where
  exact arithmetic would yield 3.63.
\<close>

lemma percentage_double_example:
  "toFixed2 (fmul (fdiv 29 800) 100) = 362 / 100 \<and> toFixed2 (29 / 800 * 100) = 363 / 100"
  by code_simp

section \<open>Building a metric\<close>






section \<open>Selecting the hero metric\<close>

lemma sort_key_head:
  "sort_key f xs = y # ys \<Longrightarrow>
     (\<forall>x\<in>set xs. f y \<le> f x) \<and> (\<exists>as bs. xs = as @ y # bs \<and> (\<forall>a\<in>set as. f y < f a))"
proof (induction xs arbitrary: y ys)
  case Nil
  then show ?case by simp
next
  case (Cons x xs)
  show ?case
  proof (cases "sort_key f xs")
    case Nil
    then have "xs = []" by (metis length_sort list.size(3) length_0_conv)
    with Cons.prems show ?thesis by (auto intro: exI [of _ "[]"])
  next
    case (Cons z zs)
    from Cons.IH [OF Cons] obtain as bs where
      zmin: "\<forall>x\<in>set xs. f z \<le> f x" and xs: "xs = as @ z # bs" and lt: "\<forall>a\<in>set as. f z < f a"
      by blast
    show ?thesis
    proof (cases "f x \<le> f z")
      case True
      with Cons Cons.prems have "y = x" by simp
      moreover have "\<forall>x'\<in>set xs. f x \<le> f x'" using True zmin by auto
      ultimately show ?thesis by (auto intro: exI [of _ "[]"])
    next
      case False
      with Cons Cons.prems have y: "y = z" by simp
      have "x # xs = (x # as) @ z # bs" using xs by simp
      moreover have "\<forall>a\<in>set (x # as). f z < f a" using lt False by auto
      moreover have "\<forall>x'\<in>set (x # xs). f z \<le> f x'" using zmin False by auto
      ultimately show ?thesis unfolding y by blast
    qed
  qed
qed

lemma filter_decomp:
  "filter P xs = as @ y # bs \<Longrightarrow>
     \<exists>as' bs'. xs = as' @ y # bs' \<and> filter P as' = as \<and> filter P bs' = bs \<and> P y"
proof (induction xs arbitrary: as)
  case Nil
  then show ?case by simp
next
  case (Cons x xs)
  show ?case
  proof (cases "P x")
    case False
    with Cons.prems have "filter P xs = as @ y # bs" by simp
    from Cons.IH [OF this] obtain as' bs' where
      "xs = as' @ y # bs'" "filter P as' = as" "filter P bs' = bs" "P y" by blast
    with False have "x # xs = (x # as') @ y # bs' \<and> filter P (x # as') = as \<and>
        filter P bs' = bs \<and> P y" by simp
    then show ?thesis by blast
  next
    case True
    show ?thesis
    proof (cases as)
      case Nil
      with True Cons.prems have "x # xs = [] @ y # xs \<and> filter P [] = as \<and>
          filter P xs = bs \<and> P y" by simp
      then show ?thesis by blast
    next
      case (Cons a as2)
      with True Cons.prems have a: "a = x" and "filter P xs = as2 @ y # bs" by simp_all
      from Cons.IH [OF this(2)] obtain as' bs' where
        "xs = as' @ y # bs'" "filter P as' = as2" "filter P bs' = bs" "P y" by blast
      with True Cons a have "x # xs = (x # as') @ y # bs' \<and> filter P (x # as') = as \<and>
          filter P bs' = bs \<and> P y" by simp
      then show ?thesis by blast
    qed
  qed
qed

lemma selectHeroMetric_None_iff: "selectHeroMetric ms = None \<longleftrightarrow> (\<forall>m\<in>set ms. direction m = Equal)"
proof -
  let ?xs = "filter (\<lambda>m. direction m \<noteq> Equal) ms"
  have "selectHeroMetric ms = None \<longleftrightarrow> sort_key (\<lambda>m. - \<bar>diff m\<bar>) ?xs = []"
    by (simp add: selectHeroMetric_def split: list.splits)
  also have "\<dots> \<longleftrightarrow> ?xs = []"
    by (metis length_sort length_0_conv)
  also have "\<dots> \<longleftrightarrow> (\<forall>m\<in>set ms. direction m = Equal)"
    by (simp add: filter_empty_conv)
  finally show ?thesis .
qed

lemma selectHeroMetric_Some:
  assumes "selectHeroMetric ms = Some m"
  shows "direction m \<noteq> Equal"
    and "\<forall>m'\<in>set ms. direction m' \<noteq> Equal \<longrightarrow> \<bar>diff m'\<bar> \<le> \<bar>diff m\<bar>"
    and "\<exists>as bs. ms = as @ m # bs \<and> (\<forall>a\<in>set as. direction a \<noteq> Equal \<longrightarrow> \<bar>diff a\<bar> < \<bar>diff m\<bar>)"
proof -
  let ?p = "\<lambda>m. direction m \<noteq> Equal"
  let ?f = "\<lambda>m. - \<bar>diff m\<bar>"
  from assms obtain ys where s: "sort_key ?f (filter ?p ms) = m # ys"
    by (auto simp: selectHeroMetric_def split: list.splits)
  from sort_key_head [OF s] obtain as bs where
    mn: "\<forall>x\<in>set (filter ?p ms). ?f m \<le> ?f x" and
    dec: "filter ?p ms = as @ m # bs" and lt: "\<forall>a\<in>set as. ?f m < ?f a"
    by blast
  from filter_decomp [OF dec] obtain as' bs' where
    ms: "ms = as' @ m # bs'" and as: "filter ?p as' = as" and pm: "?p m"
    by blast
  show "direction m \<noteq> Equal" using pm .
  show "\<forall>m'\<in>set ms. direction m' \<noteq> Equal \<longrightarrow> \<bar>diff m'\<bar> \<le> \<bar>diff m\<bar>"
    using mn by auto
  have "\<forall>a\<in>set as'. direction a \<noteq> Equal \<longrightarrow> \<bar>diff a\<bar> < \<bar>diff m\<bar>"
    using lt as by auto
  with ms show "\<exists>as bs. ms = as @ m # bs \<and> (\<forall>a\<in>set as. direction a \<noteq> Equal \<longrightarrow> \<bar>diff a\<bar> < \<bar>diff m\<bar>)"
    by blast
qed


text \<open>
  Claim C2. \<open>selectHeroMetric\<close> returns \<open>None\<close> exactly when every metric is tagged
  \<open>Equal\<close>. A returned metric is not tagged \<open>Equal\<close>, no metric that is not tagged
  \<open>Equal\<close> has a larger absolute difference, and every such metric standing before it
  in the list has a strictly smaller one (the first occurrence wins a tie). Among
  stars (difference 150), followers (difference 5) and repositories (difference 0) the
  stars metric is returned.
\<close>

theorem selectHeroMetric_spec:
  "(selectHeroMetric ms = None \<longleftrightarrow> (\<forall>m\<in>set ms. direction m = Equal)) \<and>
   (\<forall>m. selectHeroMetric ms = Some m \<longrightarrow>
      direction m \<noteq> Equal \<and>
      (\<forall>m'\<in>set ms. direction m' \<noteq> Equal \<longrightarrow> \<bar>diff m'\<bar> \<le> \<bar>diff m\<bar>) \<and>
      (\<exists>as bs. ms = as @ m # bs \<and>
         (\<forall>a\<in>set as. direction a \<noteq> Equal \<longrightarrow> \<bar>diff a\<bar> < \<bar>diff m\<bar>))) \<and>
   selectHeroMetric
     [buildMetric ''stars'' ''Repository Stars'' 500 350 None,
      buildMetric ''followers'' ''Followers'' 15 10 None,
      buildMetric ''repositories'' ''Public Repositories'' 7 7 None]
     = Some (buildMetric ''stars'' ''Repository Stars'' 500 350 None)"
proof (intro conjI allI impI)
  show "selectHeroMetric ms = None \<longleftrightarrow> (\<forall>m\<in>set ms. direction m = Equal)"
    by (rule selectHeroMetric_None_iff)
next
  fix m assume "selectHeroMetric ms = Some m"
  from selectHeroMetric_Some [OF this]
  show "direction m \<noteq> Equal"
    and "\<forall>m'\<in>set ms. direction m' \<noteq> Equal \<longrightarrow> \<bar>diff m'\<bar> \<le> \<bar>diff m\<bar>"
    and "\<exists>as bs. ms = as @ m # bs \<and>
         (\<forall>a\<in>set as. direction a \<noteq> Equal \<longrightarrow> \<bar>diff a\<bar> < \<bar>diff m\<bar>)"
    by blast+
next
  show "selectHeroMetric
     [buildMetric ''stars'' ''Repository Stars'' 500 350 None,
      buildMetric ''followers'' ''Followers'' 15 10 None,
      buildMetric ''repositories'' ''Public Repositories'' 7 7 None]
     = Some (buildMetric ''stars'' ''Repository Stars'' 500 350 None)"
    by code_simp
qed

text \<open>
  Claim C2 on a tie: two metrics with the same absolute difference 5, the first one
  wins, and the metric tagged \<open>Equal\<close> is never chosen.
\<close>

theorem selectHeroMetric_spec_witness:
  "selectHeroMetric
     [buildMetric ''repositories'' ''Public Repositories'' 7 7 None,
      buildMetric ''followers'' ''Followers'' 10 15 None,
      buildMetric ''stars'' ''Repository Stars'' 355 350 None]
     = Some (buildMetric ''followers'' ''Followers'' 10 15 None) \<and>
   direction (buildMetric ''followers'' ''Followers'' 10 15 None) \<noteq> Equal \<and>
   \<bar>diff (buildMetric ''stars'' ''Repository Stars'' 355 350 None)\<bar>
     \<le> \<bar>diff (buildMetric ''followers'' ''Followers'' 10 15 None)\<bar>"
proof -
  let ?ms = "[buildMetric ''repositories'' ''Public Repositories'' 7 7 None,
      buildMetric ''followers'' ''Followers'' 10 15 None,
      buildMetric ''stars'' ''Repository Stars'' 355 350 None]"
  have sel: "selectHeroMetric ?ms = Some (buildMetric ''followers'' ''Followers'' 10 15 None)"
    by code_simp
  have up: "direction (buildMetric ''stars'' ''Repository Stars'' 355 350 None) \<noteq> Equal"
    by code_simp
  from selectHeroMetric_spec [of ?ms] sel up show ?thesis by simp
qed

section \<open>The TTL cache\<close>

lemma remember_hit:
  assumes "store c key = Some e" "now \<le> expiresAt e" "entry_value e \<noteq> Undefined"
  shows "TTLCache_remember c now later key f ttl w = (Inr (entry_value e), 0, c, w)"
  using assms by (simp add: TTLCache_remember_def TTLCache_get_def)

lemma get_expired:
  assumes "store c key = Some e" "expiresAt e < now"
  shows "TTLCache_get c now key = (Undefined, c\<lparr>store := (store c)(key := None)\<rparr>)"
  using assms by (simp add: TTLCache_get_def)

lemma remember_miss:
  assumes "fst (TTLCache_get c now key) = Undefined"
  shows "fst (TTLCache_remember c now later key f ttl w) = fst (f w) \<and>
         fst (snd (TTLCache_remember c now later key f ttl w)) = 1"
  using assms
  by (auto simp: TTLCache_remember_def split: prod.splits sum.splits)

lemma remember_returns:
  assumes "TTLCache_remember c now later key f ttl w = (Inr v, n, c', w')"
    and "v \<noteq> Undefined"
  shows "n \<le> 1 \<and> (\<exists>e. store c' key = Some e \<and> entry_value e = v \<and>
     (n = 1 \<longrightarrow> expiresAt e = later + (case ttl of None \<Rightarrow> defaultTtlMs c | Some t \<Rightarrow> t)))"
  using assms
  by (auto simp: TTLCache_remember_def TTLCache_get_def TTLCache_set_def Let_def
      split: option.splits if_splits sum.splits prod.splits)

text \<open>
  Claim C4, as the code has it. Let a call of \<open>remember\<close> return a value \<open>v\<close> that is not
  \<open>undefined\<close>. The call has invoked the factory at most once, and it leaves an entry \<open>e\<close>
  with that value under the key; when the factory ran, the entry expires at the time of
  \<open>set\<close> plus the TTL. A following call no later than \<open>expiresAt e\<close> returns \<open>v\<close> again
  without invoking its factory and leaves cache and world as they are, so the two calls
  invoke the factory at most once. A following call after \<open>expiresAt e\<close> finds the entry
  purged by \<open>get\<close>, invokes its factory once and returns what the factory delivers.
\<close>

theorem TTLCache_remember_spec:
  fixes f :: "'w \<Rightarrow> ('e + 'v jsval) \<times> 'w"
  assumes first: "TTLCache_remember c t1 t1' key f ttl w = (Inr v, n1, c1, w1)"
    and defined: "v \<noteq> Undefined"
  shows "n1 \<le> 1 \<and>
    (\<exists>e. store c1 key = Some e \<and> entry_value e = v \<and>
       (n1 = 1 \<longrightarrow> expiresAt e = t1' + (case ttl of None \<Rightarrow> defaultTtlMs c | Some t \<Rightarrow> t)) \<and>
       (\<forall>t2 t2' ttl2. \<forall>g :: 'w \<Rightarrow> ('e + 'v jsval) \<times> 'w. t2 \<le> expiresAt e \<longrightarrow>
          TTLCache_remember c1 t2 t2' key g ttl2 w1 = (Inr v, 0, c1, w1)) \<and>
       (\<forall>t3 t3' ttl3. \<forall>g :: 'w \<Rightarrow> ('e + 'v jsval) \<times> 'w. expiresAt e < t3 \<longrightarrow>
          store (snd (TTLCache_get c1 t3 key)) key = None \<and>
          fst (snd (TTLCache_remember c1 t3 t3' key g ttl3 w1)) = 1 \<and>
          fst (TTLCache_remember c1 t3 t3' key g ttl3 w1) = fst (g w1)))"
proof -
  from remember_returns [OF first defined] obtain e where
    n1: "n1 \<le> 1" and e: "store c1 key = Some e" and v: "entry_value e = v" and
    exp: "n1 = 1 \<longrightarrow> expiresAt e = t1' + (case ttl of None \<Rightarrow> defaultTtlMs c | Some t \<Rightarrow> t)"
    by blast
  have hit: "TTLCache_remember c1 t2 t2' key g ttl2 w1 = (Inr v, 0, c1, w1)"
    if "t2 \<le> expiresAt e" for t2 t2' ttl2 and g :: "'w \<Rightarrow> ('e + 'v jsval) \<times> 'w"
    using remember_hit [OF e that, where f = g] v defined by simp
  have late: "store (snd (TTLCache_get c1 t3 key)) key = None \<and>
      fst (snd (TTLCache_remember c1 t3 t3' key g ttl3 w1)) = 1 \<and>
      fst (TTLCache_remember c1 t3 t3' key g ttl3 w1) = fst (g w1)"
    if "expiresAt e < t3" for t3 t3' ttl3 and g :: "'w \<Rightarrow> ('e + 'v jsval) \<times> 'w"
    using get_expired [OF e that] remember_miss [of c1 t3 key t3' g ttl3 w1] by simp
  from n1 e v exp hit late show ?thesis by blast
qed

text \<open>
  Claim C4 on a fresh cache with a TTL of five minutes. The first call, at time 1000,
  runs the factory, which settles at 1001. A call at time 2000 returns the same value
  with no invocation; a call at time 400000, after the expiry at 301001, invokes the
  factory again.
\<close>

theorem TTLCache_remember_spec_witness:
  "TTLCache_remember
     \<lparr>store = [''octocat'' \<mapsto> \<lparr>entry_value = Defined (1::nat), expiresAt = 301001\<rparr>],
      defaultTtlMs = 300000\<rparr> 2000 2001 ''octocat'' counting_factory None 1
   = (Inr (Defined 1), 0,
      \<lparr>store = [''octocat'' \<mapsto> \<lparr>entry_value = Defined 1, expiresAt = 301001\<rparr>],
       defaultTtlMs = 300000\<rparr>, 1) \<and>
   fst (snd (TTLCache_remember
     \<lparr>store = [''octocat'' \<mapsto> \<lparr>entry_value = Defined (1::nat), expiresAt = 301001\<rparr>],
      defaultTtlMs = 300000\<rparr> 400000 400001 ''octocat'' counting_factory None 1)) = 1"
proof -
  let ?c1 = "\<lparr>store = [''octocat'' \<mapsto> \<lparr>entry_value = Defined (1::nat), expiresAt = 301001\<rparr>],
      defaultTtlMs = 300000\<rparr>"
  have first: "TTLCache_remember (TTLCache_new 300000) 1000 1001 ''octocat'' counting_factory None 0
      = (Inr (Defined 1), 1, ?c1, 1)"
    by (simp add: TTLCache_remember_def TTLCache_get_def TTLCache_set_def TTLCache_new_def
        counting_factory_def)
  have "Defined (1::nat) \<noteq> Undefined" by simp
  from TTLCache_remember_spec [OF first this] obtain e where
    e: "store ?c1 ''octocat'' = Some e" and
    hit: "\<forall>t2 t2' ttl2. \<forall>g :: nat \<Rightarrow> (string + nat jsval) \<times> nat. t2 \<le> expiresAt e \<longrightarrow>
          TTLCache_remember ?c1 t2 t2' ''octocat'' g ttl2 1 = (Inr (Defined 1), 0, ?c1, 1 :: nat)" and
    late: "\<forall>t3 t3' ttl3. \<forall>g :: nat \<Rightarrow> (string + nat jsval) \<times> nat. expiresAt e < t3 \<longrightarrow>
          fst (snd (TTLCache_remember ?c1 t3 t3' ''octocat'' g ttl3 1)) = (1 :: nat)"
    by blast
  from e have exp: "expiresAt e = 301001" by auto
  have "TTLCache_remember ?c1 2000 2001 ''octocat'' counting_factory None 1
      = (Inr (Defined 1), 0, ?c1, 1)"
    using hit exp by simp
  moreover have "fst (snd (TTLCache_remember ?c1 400000 400001 ''octocat'' counting_factory None 1)) = 1"
    using late exp by simp
  ultimately show ?thesis by blast
qed

text \<open>
  Claim C4 as stated fails for a factory that resolves to \<open>undefined\<close>: the value is
  stored, with an expiry at 301001, but \<open>remember\<close> takes it for a miss, so two calls at
  the times 1000 and 2000 invoke the factory twice.
\<close>

theorem TTLCache_remember_undefined_counterexample:
  "(case TTLCache_remember (TTLCache_new 300000) 1000 1001 ''octocat'' undefined_factory None 0 of
      (r1, n1, c1, w1) \<Rightarrow>
        (case TTLCache_remember c1 2000 2001 ''octocat'' undefined_factory None w1 of
           (r2, n2, c2, w2) \<Rightarrow>
             (n1 + n2, map_option expiresAt (store c1 ''octocat''), r1, r2)))
   = (2, Some 301001, Inr Undefined, Inr Undefined)"
  by (simp add: TTLCache_remember_def TTLCache_get_def TTLCache_set_def TTLCache_new_def
      undefined_factory_def)

section \<open>The graph query\<close>

text \<open>
  Claim C9, as the code has it. Without a credential \<open>githubGraphqlFetch\<close> returns
  \<open>null\<close> and throws nothing. With a credential and a response whose payload is not
  \<open>null\<close> (a JSON value, or \<open>{}\<close> for a body that is not JSON), it throws a
  \<open>GitHubApiError\<close> exactly when the response is not a success or the array of errors
  is not empty, and the error carries the status and the payload; otherwise it returns
  the data of the payload. With a credential and a body that is the JSON value \<open>null\<close>
  it throws a \<open>TypeError\<close>, whatever the status. A rejected \<open>fetch\<close> passes through
  and is no \<open>GitHubApiError\<close>.
\<close>

theorem githubGraphqlFetch_spec:
  "((token = None \<or> token = Some []) \<longrightarrow> githubGraphqlFetch token net = Inr None) \<and>
   (token \<noteq> None \<and> token \<noteq> Some [] \<longrightarrow>
      (net = NetworkError \<longrightarrow> githubGraphqlFetch token net = Inl FetchError) \<and>
      (\<forall>r. net = Response r \<longrightarrow>
         (json_or_empty r = JsonNull \<longrightarrow> githubGraphqlFetch token net = Inl TypeError) \<and>
         (json_or_empty r = JsonNull \<longleftrightarrow> body r = Some JsonNull) \<and>
         (\<forall>payload. json_or_empty r = Payload payload \<longrightarrow>
            ((\<exists>m s p. githubGraphqlFetch token net = Inl (GitHubApiError m s p)) \<longleftrightarrow>
               (\<not> response_ok r \<or> errors_length_truthy payload)) \<and>
            (\<not> response_ok r \<or> errors_length_truthy payload \<longrightarrow>
               (\<exists>m. githubGraphqlFetch token net = Inl (GitHubApiError m (status r) payload))) \<and>
            (response_ok r \<and> \<not> errors_length_truthy payload \<longrightarrow>
               githubGraphqlFetch token net = Inr (data payload)))))"
  by (cases net) (auto simp: githubGraphqlFetch_def json_or_empty_def split: option.splits)

text \<open>
  Claim C9 on four inputs: no token; a token and a success without errors, which
  returns the data; a token and a success whose payload lists an error, which throws
  the error of the client; a token and a success with the body \<open>null\<close>, which throws a
  \<open>TypeError\<close>.
\<close>

theorem githubGraphqlFetch_spec_witness:
  "githubGraphqlFetch None
     (Response \<lparr>status = 200, link = None,
        body = Some (Payload \<lparr>data = Some (7 :: nat), errors = None\<rparr>)\<rparr>) = Inr None \<and>
   githubGraphqlFetch (Some ''ghp_token'')
     (Response \<lparr>status = 200, link = None,
        body = Some (Payload \<lparr>data = Some (7 :: nat), errors = None\<rparr>)\<rparr>) = Inr (Some 7) \<and>
   (\<exists>m. githubGraphqlFetch (Some ''ghp_token'')
     (Response \<lparr>status = 200, link = None,
        body = Some (Payload \<lparr>data = Some (7 :: nat), errors = Some [''rate limited'']\<rparr>)\<rparr>)
     = Inl (GitHubApiError m 200 \<lparr>data = Some 7, errors = Some [''rate limited'']\<rparr>)) \<and>
   githubGraphqlFetch (Some ''ghp_token'')
     (Response \<lparr>status = 200, link = None, body = Some (JsonNull :: nat gql_body)\<rparr>)
     = Inl TypeError"
proof -
  let ?ok = "\<lparr>status = 200, link = None,
        body = Some (Payload \<lparr>data = Some (7 :: nat), errors = None\<rparr>)\<rparr>"
  let ?err = "\<lparr>status = 200, link = None,
        body = Some (Payload \<lparr>data = Some (7 :: nat), errors = Some [''rate limited'']\<rparr>)\<rparr>"
  let ?null = "\<lparr>status = 200, link = None, body = Some (JsonNull :: nat gql_body)\<rparr>"
  have ok: "response_ok ?ok" "\<not> errors_length_truthy \<lparr>data = Some (7 :: nat), errors = None\<rparr>"
    "json_or_empty ?ok = Payload \<lparr>data = Some 7, errors = None\<rparr>"
    by (simp_all add: response_ok_def errors_length_truthy_def json_or_empty_def)
  have err: "errors_length_truthy \<lparr>data = Some (7 :: nat), errors = Some [''rate limited'']\<rparr>"
    "json_or_empty ?err = Payload \<lparr>data = Some 7, errors = Some [''rate limited'']\<rparr>"
    "status ?err = 200"
    by (simp_all add: errors_length_truthy_def json_or_empty_def)
  have null: "json_or_empty ?null = JsonNull"
    by (simp add: json_or_empty_def)
  have 1: "githubGraphqlFetch None (Response ?ok) = Inr None"
    using githubGraphqlFetch_spec [of None "Response ?ok"] by simp
  have 2: "githubGraphqlFetch (Some ''ghp_token'') (Response ?ok) = Inr (Some 7)"
    using githubGraphqlFetch_spec [of "Some ''ghp_token''" "Response ?ok"] ok by simp
  have 3: "\<exists>m. githubGraphqlFetch (Some ''ghp_token'') (Response ?err)
     = Inl (GitHubApiError m 200 \<lparr>data = Some 7, errors = Some [''rate limited'']\<rparr>)"
    using githubGraphqlFetch_spec [of "Some ''ghp_token''" "Response ?err"] err by simp
  have 4: "githubGraphqlFetch (Some ''ghp_token'') (Response ?null) = Inl TypeError"
    using githubGraphqlFetch_spec [of "Some ''ghp_token''" "Response ?null"] null by simp
  from 1 2 3 4 show ?thesis by (intro conjI)
qed

text \<open>
  Claim C9 as stated fails on a response with the status 502 and the body \<open>null\<close>: the
  response is not a success, and what is thrown is a \<open>TypeError\<close>, not the error of the
  client; on the status 200 with the same body no data is returned either.
\<close>

theorem githubGraphqlFetch_null_counterexample:
  "githubGraphqlFetch (Some ''ghp_token'')
     (Response \<lparr>status = 502, link = None, body = Some (JsonNull :: nat gql_body)\<rparr>)
     = Inl TypeError \<and>
   \<not> response_ok \<lparr>status = 502, link = None, body = Some (JsonNull :: nat gql_body)\<rparr> \<and>
   githubGraphqlFetch (Some ''ghp_token'')
     (Response \<lparr>status = 200, link = None, body = Some (JsonNull :: nat gql_body)\<rparr>)
     = Inl TypeError \<and>
   response_ok \<lparr>status = 200, link = None, body = Some (JsonNull :: nat gql_body)\<rparr>"
  by (simp add: githubGraphqlFetch_def json_or_empty_def response_ok_def)

section \<open>Pagination and totals\<close>

lemma fetchPages_Inr:
  "fetchPages user net page acc = Inr repos \<longleftrightarrow>
     (\<exists>b. page_batch net page = Some b \<and>
        (if last_page net page \<or> page \<ge> 3 then repos = acc @ b
         else fetchPages user net (page + 1) (acc @ b) = Inr repos))"
  by (subst fetchPages.simps)
     (auto simp: page_batch_def last_page_def page_has_next_def Let_def
        split: fetched.splits option.splits rest_body.splits)

lemma fetchUserRepositories_Inr:
  "fetchUserRepositories user net = Inr repos \<longleftrightarrow>
     (\<exists>b1. page_batch net 1 = Some b1 \<and>
        (if last_page net 1 then repos = b1
         else \<exists>b2. page_batch net 2 = Some b2 \<and>
           (if last_page net 2 then repos = b1 @ b2
            else \<exists>b3. page_batch net 3 = Some b3 \<and> repos = b1 @ b2 @ b3)))"
proof -
  have 3: "fetchPages user net 3 acc = Inr repos \<longleftrightarrow>
      (\<exists>b3. page_batch net 3 = Some b3 \<and> repos = acc @ b3)" for acc
    by (subst fetchPages_Inr) simp
  have 2: "fetchPages user net 2 acc = Inr repos \<longleftrightarrow>
      (\<exists>b2. page_batch net 2 = Some b2 \<and>
         (if last_page net 2 then repos = acc @ b2
          else \<exists>b3. page_batch net 3 = Some b3 \<and> repos = acc @ b2 @ b3))" for acc
    using fetchPages_Inr [of user net 2 acc repos] by (simp add: 3)
  have 1: "fetchPages user net 1 acc = Inr repos \<longleftrightarrow>
      (\<exists>b1. page_batch net 1 = Some b1 \<and>
         (if last_page net 1 then repos = acc @ b1
          else fetchPages user net 2 (acc @ b1) = Inr repos))" for acc
    using fetchPages_Inr [of user net 1 acc repos] unfolding one_add_one by simp
  show ?thesis
    unfolding fetchUserRepositories_def 1 2 by simp
qed

lemma fetchUserRepositories_length:
  assumes "fetchUserRepositories user net = Inr repos"
    and "\<forall>p b. page_batch net p = Some b \<longrightarrow> length b \<le> perPage"
  shows "length repos \<le> 300"
proof -
  from assms(1) obtain b1 where b1: "page_batch net 1 = Some b1" and
    rest: "if last_page net 1 then repos = b1
         else \<exists>b2. page_batch net 2 = Some b2 \<and>
           (if last_page net 2 then repos = b1 @ b2
            else \<exists>b3. page_batch net 3 = Some b3 \<and> repos = b1 @ b2 @ b3)"
    unfolding fetchUserRepositories_Inr by blast
  from assms(2) b1 have l1: "length b1 \<le> 100" by (auto simp: perPage_def)
  show ?thesis
  proof (cases "last_page net 1")
    case True
    with rest l1 show ?thesis by simp
  next
    case False
    with rest obtain b2 where b2: "page_batch net 2 = Some b2" and
      rest2: "if last_page net 2 then repos = b1 @ b2
            else \<exists>b3. page_batch net 3 = Some b3 \<and> repos = b1 @ b2 @ b3"
      by auto
    from assms(2) b2 have l2: "length b2 \<le> 100" by (auto simp: perPage_def)
    show ?thesis
    proof (cases "last_page net 2")
      case True
      with rest2 l1 l2 show ?thesis by simp
    next
      case False
      with rest2 obtain b3 where b3: "page_batch net 3 = Some b3" and r: "repos = b1 @ b2 @ b3"
        by auto
      from assms(2) b3 have "length b3 \<le> 100" by (auto simp: perPage_def)
      with l1 l2 r show ?thesis by simp
    qed
  qed
qed

lemma computeTotals_foldl:
  "foldl (\<lambda>acc repo.
              acc\<lparr>stars := stars acc + stargazers_count repo,
                  forks := forks acc + forks_count repo,
                  watchers := watchers acc + watchers_count repo,
                  issues := issues acc + open_issues_count repo\<rparr>) t repos
   = \<lparr>stars = stars t + sum_list (map stargazers_count repos),
      forks = forks t + sum_list (map forks_count repos),
      watchers = watchers t + sum_list (map watchers_count repos),
      issues = issues t + sum_list (map open_issues_count repos)\<rparr>"
  by (induction repos arbitrary: t) simp_all

lemma computeTotals_sums:
  "computeTotals repos =
     \<lparr>stars = sum_list (map stargazers_count repos),
      forks = sum_list (map forks_count repos),
      watchers = sum_list (map watchers_count repos),
      issues = sum_list (map open_issues_count repos)\<rparr>"
  by (simp add: computeTotals_def computeTotals_foldl)

text \<open>
  Claim C5. \<open>fetchUserRepositories\<close> returns a list exactly when page 1 delivers a
  batch and, as long as a page is full and has a continuation link, the next page does,
  up to page 3; the list is the batches of the pages fetched, in order. So at most 3
  pages are fetched, and with pages of at most 100 repositories the list has at most
  300. \<open>computeTotals\<close> of a list holds the sums of its stars, forks, watchers and open
  issues.
\<close>

theorem fetchUserRepositories_spec:
  "(fetchUserRepositories user net = Inr repos \<longleftrightarrow>
     (\<exists>b1. page_batch net 1 = Some b1 \<and>
        (if last_page net 1 then repos = b1
         else \<exists>b2. page_batch net 2 = Some b2 \<and>
           (if last_page net 2 then repos = b1 @ b2
            else \<exists>b3. page_batch net 3 = Some b3 \<and> repos = b1 @ b2 @ b3)))) \<and>
   (fetchUserRepositories user net = Inr repos \<longrightarrow>
      (\<forall>p b. page_batch net p = Some b \<longrightarrow> length b \<le> perPage) \<longrightarrow> length repos \<le> 300) \<and>
   stars (computeTotals repos) = sum_list (map stargazers_count repos) \<and>
   forks (computeTotals repos) = sum_list (map forks_count repos) \<and>
   watchers (computeTotals repos) = sum_list (map watchers_count repos) \<and>
   issues (computeTotals repos) = sum_list (map open_issues_count repos)"
  using fetchUserRepositories_Inr [of user net repos]
    fetchUserRepositories_length [of user net repos]
  by (simp add: computeTotals_sums)

lemma example_server_batch:
  "page_batch (example_server full rest) p =
     Some (if p \<le> full then replicate perPage one_star else replicate rest one_star)"
  by (simp add: page_batch_def example_server_def response_ok_def)

lemma example_link_next: "sublist rel_next example_link"
  unfolding example_link_def by (rule sublist_append_leftI)

lemma example_server_last:
  "rest < perPage \<Longrightarrow> last_page (example_server full rest) p \<longleftrightarrow> full < p"
  by (auto simp: last_page_def page_has_next_def example_server_def example_server_batch
      example_link_next)

text \<open>
  Claim C5 on a server with one full page and a second page of 7 repositories: both pages
  are fetched, the list has 107 repositories, and the stars sum to 107. On a server with
  five full pages the fetch stops after page 3 with 300 repositories.
\<close>

theorem fetchUserRepositories_spec_witness:
  "fetchUserRepositories ''octocat'' (example_server 1 7)
     = Inr (replicate perPage one_star @ replicate 7 one_star) \<and>
   length (replicate perPage one_star @ replicate 7 one_star) \<le> 300 \<and>
   stars (computeTotals (replicate perPage one_star @ replicate 7 one_star)) = 107 \<and>
   fetchUserRepositories ''octocat'' (example_server 5 0)
     = Inr (replicate perPage one_star @ replicate perPage one_star @ replicate perPage one_star)"
proof -
  let ?repos = "replicate perPage one_star @ replicate 7 one_star"
  let ?full = "replicate perPage one_star @ replicate perPage one_star @ replicate perPage one_star"
  have small: "\<forall>p b. page_batch (example_server 1 7) p = Some b \<longrightarrow> length b \<le> perPage"
    by (auto simp: example_server_batch perPage_def)
  have l: "last_page (example_server 1 7) p \<longleftrightarrow> 1 < p"
    "last_page (example_server 5 0) p \<longleftrightarrow> 5 < p" for p
    by (simp_all add: example_server_last perPage_def)
  have fetched: "fetchUserRepositories ''octocat'' (example_server 1 7) = Inr ?repos"
    using fetchUserRepositories_spec [of "''octocat''" "example_server 1 7" ?repos]
    by (simp add: example_server_batch l del: One_nat_def)
  have capped: "fetchUserRepositories ''octocat'' (example_server 5 0) = Inr ?full"
    using fetchUserRepositories_spec [of "''octocat''" "example_server 5 0" ?full]
    by (simp add: example_server_batch l del: One_nat_def)
  have len: "length ?repos \<le> 300"
    using fetchUserRepositories_spec [of "''octocat''" "example_server 1 7" ?repos] fetched small
    by blast
  have "stars (computeTotals ?repos) = sum_list (map stargazers_count ?repos)"
    using fetchUserRepositories_spec [of "''octocat''" "example_server 1 7" ?repos] by blast
  also have "\<dots> = 107"
    by (simp add: sum_list_replicate one_star_def perPage_def)
  finally show ?thesis using fetched capped len by blast
qed

section \<open>Contribution streaks\<close>

lemma prefix_takeWhile_length:
  "prefix ps ys \<Longrightarrow> \<forall>p\<in>set ps. P p \<Longrightarrow> length ps \<le> length (takeWhile P ys)"
proof (induction ps arbitrary: ys)
  case Nil
  then show ?case by simp
next
  case (Cons p ps)
  from Cons.prems(1) obtain ys' where "ys = p # ys'" "prefix ps ys'" by (cases ys) auto
  with Cons show ?case by simp
qed

lemma suffix_run_length:
  assumes "suffix zs xs" "\<forall>z\<in>set zs. P z"
  shows "length zs \<le> length (takeWhile P (rev xs))"
proof -
  from assms(1) have "prefix (rev zs) (rev xs)" by (simp add: suffix_to_prefix)
  moreover from assms(2) have "\<forall>z\<in>set (rev zs). P z" by simp
  ultimately have "length (rev zs) \<le> length (takeWhile P (rev xs))"
    by (rule prefix_takeWhile_length)
  then show ?thesis by simp
qed

lemma streak_scan:
  "fst (foldl streak_step (0, 0) xs) = length (takeWhile active (rev xs)) \<and>
   (\<forall>ys. sublist ys xs \<and> (\<forall>d\<in>set ys. active d) \<longrightarrow> length ys \<le> snd (foldl streak_step (0, 0) xs)) \<and>
   (\<exists>ys. sublist ys xs \<and> (\<forall>d\<in>set ys. active d) \<and> length ys = snd (foldl streak_step (0, 0) xs))"
proof (induction xs rule: rev_induct)
  case Nil
  then show ?case by simp
next
  case (snoc x xs)
  obtain cur lng where s: "foldl streak_step (0, 0) xs = (cur, lng)" by (cases "foldl streak_step (0, 0) xs")
  from snoc s have cur: "cur = length (takeWhile active (rev xs))"
    and ub: "\<And>ys. sublist ys xs \<Longrightarrow> \<forall>d\<in>set ys. active d \<Longrightarrow> length ys \<le> lng"
    and ex: "\<exists>ys. sublist ys xs \<and> (\<forall>d\<in>set ys. active d) \<and> length ys = lng"
    by auto
  show ?case
  proof (cases "active x")
    case False
    then have s': "foldl streak_step (0, 0) (xs @ [x]) = (0, lng)"
      by (simp add: s streak_step_def active_def)
    have ub': "length ys \<le> lng" if "sublist ys (xs @ [x])" "\<forall>d\<in>set ys. active d" for ys
    proof -
      from that(1) have "suffix ys (xs @ [x]) \<or> sublist ys xs" by (simp add: sublist_snoc)
      then show ?thesis
      proof
        assume "suffix ys (xs @ [x])"
        with that(2) False have "ys = []" by (auto simp: suffix_snoc)
        then show ?thesis by simp
      next
        assume "sublist ys xs"
        then show ?thesis using that(2) by (rule ub)
      qed
    qed
    from ex obtain ys where "sublist ys xs" "\<forall>d\<in>set ys. active d" "length ys = lng"
      by blast
    then have ex': "sublist ys (xs @ [x]) \<and> (\<forall>d\<in>set ys. active d) \<and> length ys = lng"
      by (simp add: sublist_snoc)
    have cur': "0 = length (takeWhile active (rev (xs @ [x])))" using False by simp
    show ?thesis unfolding s' fst_conv snd_conv using cur' ub' ex' by blast
  next
    case True
    then have s': "foldl streak_step (0, 0) (xs @ [x]) = (cur + 1, max lng (cur + 1))"
      by (simp add: s streak_step_def active_def)
    have ub': "length ys \<le> max lng (cur + 1)" if "sublist ys (xs @ [x])" "\<forall>d\<in>set ys. active d" for ys
    proof -
      from that(1) have "suffix ys (xs @ [x]) \<or> sublist ys xs" by (simp add: sublist_snoc)
      then show ?thesis
      proof
        assume "suffix ys (xs @ [x])"
        then consider "ys = []" | zs where "ys = zs @ [x]" "suffix zs xs" by (auto simp: suffix_snoc)
        then show ?thesis
        proof cases
          case 1
          then show ?thesis by simp
        next
          case 2
          with that(2) have "length zs \<le> cur" unfolding cur
            by (intro suffix_run_length) auto
          with 2 show ?thesis by simp
        qed
      next
        assume "sublist ys xs"
        then have "length ys \<le> lng" using that(2) by (rule ub)
        then show ?thesis by simp
      qed
    qed
    have ex': "\<exists>ys. sublist ys (xs @ [x]) \<and> (\<forall>d\<in>set ys. active d) \<and> length ys = max lng (cur + 1)"
    proof (cases "cur + 1 \<le> lng")
      case True
      from ex obtain ys where "sublist ys xs" "\<forall>d\<in>set ys. active d" "length ys = lng"
        by blast
      then have "sublist ys (xs @ [x]) \<and> (\<forall>d\<in>set ys. active d) \<and> length ys = max lng (cur + 1)"
        using True by (simp add: sublist_snoc max_def)
      then show ?thesis by blast
    next
      case False
      let ?ys = "rev (takeWhile active (rev xs)) @ [x]"
      have "suffix (rev (takeWhile active (rev xs))) xs"
        by (simp add: suffix_to_prefix takeWhile_is_prefix)
      then have "suffix ?ys (xs @ [x])" by simp
      then have "sublist ?ys (xs @ [x])" by (simp add: sublist_snoc)
      moreover have "\<forall>d\<in>set ?ys. active d"
        using \<open>active x\<close> by (auto dest: set_takeWhileD)
      moreover have "length ?ys = max lng (cur + 1)" using False cur by simp
      ultimately show ?thesis by blast
    qed
    have cur': "cur + 1 = length (takeWhile active (rev (xs @ [x])))" using True cur by simp
    show ?thesis unfolding s' fst_conv snd_conv using cur' ub' ex' by blast
  qed
qed


text \<open>
  Claim C7. The days of all weeks are sorted by date, stably, and scanned once from
  \<open>(0, 0)\<close> with \<open>streak_step\<close>, which increments the running streak on a day with a
  count above 0, resets it to 0 otherwise, and keeps the maximum. So the current
  streak is the number of days with a contribution at the end of the sorted days, and
  the longest streak is the length of a longest run of consecutive such days. For the
  counts 1, 1, 0, 1, 1, 1, 0, 0 the current streak is 0 and the longest streak is 3.
\<close>

theorem aggregateContributionStats_streak:
  "aggregateContributionStats None = None \<and>
   (\<exists>stats. aggregateContributionStats (Some d) = Some stats \<and>
      (current (streak stats), longest (streak stats)) =
         foldl streak_step (0, 0) (sorted_days (weeks (contributionCalendar d))) \<and>
      sorted (map date (sorted_days (weeks (contributionCalendar d)))) \<and>
      mset (sorted_days (weeks (contributionCalendar d))) =
         mset (concat (map contributionDays (weeks (contributionCalendar d)))) \<and>
      current (streak stats) =
         length (takeWhile active (rev (sorted_days (weeks (contributionCalendar d))))) \<and>
      (\<forall>ys. sublist ys (sorted_days (weeks (contributionCalendar d))) \<and> (\<forall>day\<in>set ys. active day)
         \<longrightarrow> length ys \<le> longest (streak stats)) \<and>
      (\<exists>ys. sublist ys (sorted_days (weeks (contributionCalendar d))) \<and> (\<forall>day\<in>set ys. active day)
         \<and> length ys = longest (streak stats))) \<and>
   map contributionCount (sorted_days (weeks (contributionCalendar example_calendar)))
     = [1, 1, 0, 1, 1, 1, 0, 0] \<and>
   map_option streak (aggregateContributionStats (Some example_calendar))
     = Some \<lparr>current = 0, longest = 3\<rparr>"
proof -
  let ?days = "sorted_days (weeks (contributionCalendar d))"
  obtain stats where stats: "aggregateContributionStats (Some d) = Some stats"
    by (simp add: aggregateContributionStats_def Let_def)
  then have st: "streak stats = \<lparr>current = fst (foldl streak_step (0, 0) ?days),
      longest = snd (foldl streak_step (0, 0) ?days)\<rparr>"
    by (auto simp: aggregateContributionStats_def Let_def)
  have scan: "(current (streak stats), longest (streak stats)) = foldl streak_step (0, 0) ?days"
    by (simp add: st)
  have srt: "sorted (map date ?days)" by (simp add: sorted_days_def)
  have perm: "mset ?days = mset (concat (map contributionDays (weeks (contributionCalendar d))))"
    by (simp add: sorted_days_def)
  have cur: "current (streak stats) = length (takeWhile active (rev ?days))"
    using streak_scan [of ?days] by (simp add: st)
  have ub: "\<forall>ys. sublist ys ?days \<and> (\<forall>day\<in>set ys. active day) \<longrightarrow> length ys \<le> longest (streak stats)"
    using streak_scan [of ?days] by (simp add: st)
  have ex: "\<exists>ys. sublist ys ?days \<and> (\<forall>day\<in>set ys. active day) \<and> length ys = longest (streak stats)"
    using streak_scan [of ?days] by (simp add: st)
  have e1: "map contributionCount (sorted_days (weeks (contributionCalendar example_calendar)))
     = [1, 1, 0, 1, 1, 1, 0, 0]"
    by code_simp
  have e2: "map_option streak (aggregateContributionStats (Some example_calendar))
     = Some \<lparr>current = 0, longest = 3\<rparr>"
    by code_simp
  have n: "aggregateContributionStats None = None"
    by (simp add: aggregateContributionStats_def)
  from stats scan srt perm cur ub ex
  have "\<exists>stats. aggregateContributionStats (Some d) = Some stats \<and>
      (current (streak stats), longest (streak stats)) = foldl streak_step (0, 0) ?days \<and>
      sorted (map date ?days) \<and>
      mset ?days = mset (concat (map contributionDays (weeks (contributionCalendar d)))) \<and>
      current (streak stats) = length (takeWhile active (rev ?days)) \<and>
      (\<forall>ys. sublist ys ?days \<and> (\<forall>day\<in>set ys. active day) \<longrightarrow> length ys \<le> longest (streak stats)) \<and>
      (\<exists>ys. sublist ys ?days \<and> (\<forall>day\<in>set ys. active day) \<and> length ys = longest (streak stats))"
    by (intro exI [of _ stats] conjI)
  with n e1 e2 show ?thesis by (intro conjI)
qed

text \<open>
  Claim C7 on the example calendar: the last of its sorted days has no contribution, so
  no day counts at the end, and the three days from 2024-01-04 on are a run of length 3
  that bounds every run.
\<close>

theorem aggregateContributionStats_streak_witness:
  "(\<exists>stats. aggregateContributionStats (Some example_calendar) = Some stats \<and>
      current (streak stats) = 0 \<and> 3 \<le> longest (streak stats))"
proof -
  let ?days = "sorted_days (weeks (contributionCalendar example_calendar))"
  let ?run = "[\<lparr>date = ''2024-01-04'', contributionCount = 1\<rparr>,
               \<lparr>date = ''2024-01-05'', contributionCount = 1\<rparr>,
               \<lparr>date = ''2024-01-06'', contributionCount = 1\<rparr>]"
  from aggregateContributionStats_streak [of example_calendar] obtain stats where
    stats: "aggregateContributionStats (Some example_calendar) = Some stats" and
    cur: "current (streak stats) = length (takeWhile active (rev ?days))" and
    ub: "\<forall>ys. sublist ys ?days \<and> (\<forall>day\<in>set ys. active day) \<longrightarrow> length ys \<le> longest (streak stats)"
    by (elim conjE exE)
  have "length (takeWhile active (rev ?days)) = 0" by code_simp
  with cur have c0: "current (streak stats) = 0" by simp
  have "sublist ?run ?days" by code_simp
  moreover have "\<forall>day\<in>set ?run. active day" by (simp add: active_def)
  ultimately have "length ?run \<le> longest (streak stats)" using ub by blast
  then have "3 \<le> longest (streak stats)" by simp
  with stats c0 show ?thesis by blast
qed


section \<open>Language statistics\<close>

lemma toFixed2_le: "toFixed2 x \<le> x + 1 / 200"
proof (cases "x < 0")
  case False
  have "of_int \<lfloor>x * 100 + 1 / 2\<rfloor> \<le> x * 100 + 1 / 2" by (rule of_int_floor_le)
  then show ?thesis using False by (simp add: toFixed2_def divide_le_eq)
next
  case True
  have "(- x) * 100 + 1 / 2 < of_int \<lfloor>(- x) * 100 + 1 / 2\<rfloor> + 1" by linarith
  then show ?thesis using True by (simp add: toFixed2_def le_divide_eq minus_divide_left [symmetric] divide_le_eq)
qed

lemma Map_set_all: "\<forall>p\<in>set m. P (snd p) \<Longrightarrow> P v \<Longrightarrow> \<forall>p\<in>set (Map_set m k v). P (snd p)"
  by (induction m k v rule: Map_set.induct) auto

lemma map_of_all: "\<forall>p\<in>set m. P (snd p) \<Longrightarrow> map_of m k = Some c \<Longrightarrow> P c"
  by (force dest: map_of_SomeD)

lemma nonneg_edge_step:
  assumes "\<forall>p\<in>set (fst s). 0 \<le> total_bytes (snd p)" "0 \<le> edge_size edge"
  shows "\<forall>p\<in>set (fst (edge_step s edge)). 0 \<le> total_bytes (snd p)"
proof (cases s)
  case (Pair m seen)
  with assms have m: "\<forall>p\<in>set m. 0 \<le> total_bytes (snd p)" by simp
  have c: "0 \<le> total_bytes c" if "map_of m (node_name edge) = Some c" for c
    using map_of_all [of m "\<lambda>e. 0 \<le> total_bytes e", OF m that] .
  show ?thesis
    unfolding Pair edge_step_def Let_def prod.case fst_conv
    by (rule Map_set_all [OF m]) (use assms(2) c in \<open>auto split: option.splits\<close>)
qed

lemma nonneg_edges:
  "\<forall>p\<in>set (fst s). 0 \<le> total_bytes (snd p) \<Longrightarrow> \<forall>edge\<in>set es. 0 \<le> edge_size edge \<Longrightarrow>
     \<forall>p\<in>set (fst (foldl edge_step s es)). 0 \<le> total_bytes (snd p)"
proof (induction es arbitrary: s)
  case Nil
  then show ?case by simp
next
  case (Cons e es)
  from Cons.prems have "\<forall>p\<in>set (fst (edge_step s e)). 0 \<le> total_bytes (snd p)"
    by (intro nonneg_edge_step) simp_all
  from Cons.IH [OF this] Cons.prems(2) show ?case by simp
qed

lemma nonneg_gql:
  "\<forall>p\<in>set m. 0 \<le> total_bytes (snd p) \<Longrightarrow>
   \<forall>repo\<in>set rs. \<forall>edge\<in>set (languages_edges repo). 0 \<le> edge_size edge \<Longrightarrow>
     \<forall>p\<in>set (foldl gql_repo_step m rs). 0 \<le> total_bytes (snd p)"
proof (induction rs arbitrary: m)
  case Nil
  then show ?case by simp
next
  case (Cons r rs)
  have "\<forall>p\<in>set (gql_repo_step m r). 0 \<le> total_bytes (snd p)"
    unfolding gql_repo_step_def using Cons.prems by (intro nonneg_edges) simp_all
  from Cons.IH [OF this] Cons.prems(2) show ?case by simp
qed

lemma nonneg_rest_step:
  assumes m: "\<forall>p\<in>set m. 0 \<le> total_bytes (snd p)"
  shows "\<forall>p\<in>set (rest_repo_step m repo). 0 \<le> total_bytes (snd p)"
proof -
  have c: "0 \<le> total_bytes c" if "map_of m l = Some c" for c l
    using map_of_all [of m "\<lambda>e. 0 \<le> total_bytes e", OF m that] .
  have "\<forall>p\<in>set (Map_set m l
          ((case map_of m l of
              None \<Rightarrow> \<lparr>total_bytes = 0, total_color = None, total_repoCount = 0\<rparr>
            | Some c \<Rightarrow> c)
           \<lparr>total_bytes := total_bytes (case map_of m l of
              None \<Rightarrow> \<lparr>total_bytes = 0, total_color = None, total_repoCount = 0\<rparr>
            | Some c \<Rightarrow> c) + 1,
            total_repoCount := total_repoCount (case map_of m l of
              None \<Rightarrow> \<lparr>total_bytes = 0, total_color = None, total_repoCount = 0\<rparr>
            | Some c \<Rightarrow> c) + 1\<rparr>)). 0 \<le> total_bytes (snd p)" for l
    by (rule Map_set_all [OF m]) (use c [of l] in \<open>auto split: option.splits\<close>)
  with m show ?thesis
    unfolding rest_repo_step_def Let_def by (simp split: option.splits)
qed

lemma nonneg_rest:
  "\<forall>p\<in>set m. 0 \<le> total_bytes (snd p) \<Longrightarrow>
     \<forall>p\<in>set (foldl rest_repo_step m rs). 0 \<le> total_bytes (snd p)"
proof (induction rs arbitrary: m)
  case Nil
  then show ?case by simp
next
  case (Cons r rs)
  from Cons.IH [OF nonneg_rest_step [OF Cons.prems]] show ?case by simp
qed

lemma nonneg_languageTotals:
  assumes "\<forall>repo\<in>set (case gql of None \<Rightarrow> [] | Some rs \<Rightarrow> rs).
             \<forall>edge\<in>set (languages_edges repo). 0 \<le> edge_size edge"
  shows "\<forall>p\<in>set (languageTotals rest gql). 0 \<le> total_bytes (snd p)"
proof -
  have e: "\<forall>p\<in>set ([] :: (string \<times> LanguageTotal) list). 0 \<le> total_bytes (snd p)" by simp
  show ?thesis
  proof (cases gql)
    case None
    then show ?thesis using nonneg_rest [OF e, of rest] by (simp add: languageTotals_def)
  next
    case (Some rs)
    show ?thesis
    proof (cases rs)
      case Nil
      with Some show ?thesis using nonneg_rest [OF e, of rest] by (simp add: languageTotals_def)
    next
      case (Cons r rs')
      from Some assms have "\<forall>p\<in>set (foldl gql_repo_step [] rs). 0 \<le> total_bytes (snd p)"
        by (intro nonneg_gql [OF e]) simp
      with Some Cons show ?thesis by (simp add: languageTotals_def)
    qed
  qed
qed

lemma totalBytes_sum: "totalBytes m = sum_list (map (total_bytes \<circ> snd) m)"
proof -
  have *: "foldl (\<lambda>sum entry. sum + total_bytes entry) a es = a + sum_list (map total_bytes es)" for a es
    by (induction es arbitrary: a) simp_all
  show ?thesis by (simp add: totalBytes_def *)
qed

lemma sum_list_take_le:
  fixes f :: "'a \<Rightarrow> int"
  assumes "\<forall>x\<in>set xs. 0 \<le> f x"
  shows "sum_list (map f (take n xs)) \<le> sum_list (map f xs)"
proof -
  have "sum_list (map f xs) = sum_list (map f (take n xs)) + sum_list (map f (drop n xs))"
    by (metis append_take_drop_id map_append sum_list_append)
  moreover have "0 \<le> sum_list (map f (drop n xs))"
    using assms by (intro sum_list_nonneg) (auto dest: in_set_dropD)
  ultimately show ?thesis by simp
qed

lemma sum_list_all_zero:
  fixes f :: "'a \<Rightarrow> rat"
  shows "\<forall>x\<in>set xs. f x = 0 \<Longrightarrow> sum_list (map f xs) = 0"
  by (induction xs) simp_all

lemma sum_list_affine:
  fixes f :: "'a \<Rightarrow> int" and a c :: rat
  shows "sum_list (map (\<lambda>s. of_int (f s) * a + c) xs)
           = of_int (sum_list (map f xs)) * a + of_nat (length xs) * c"
  by (induction xs) (simp_all add: algebra_simps)

lemma sum_list_sort_key:
  fixes f :: "'a \<Rightarrow> int"
  shows "sum_list (map f (sort_key k xs)) = sum_list (map f xs)"
proof -
  have "sum_list (map f ys) = sum_mset (image_mset f (mset ys))" for ys
    by (metis mset_map sum_mset_sum_list)
  then show ?thesis by simp
qed

lemma aggregate_alt:
  "aggregateLanguageStats rest gql =
     take 8 (sort_key (\<lambda>s. - bytes s)
       (map (toStat (totalBytes (languageTotals rest gql))) (languageTotals rest gql)))"
  by (simp add: aggregateLanguageStats_def Let_def)

lemma aggregate_sorted:
  "sorted_wrt (\<lambda>a b. bytes b \<le> bytes a) (aggregateLanguageStats rest gql)"
proof -
  let ?full = "sort_key (\<lambda>s. - bytes s)
       (map (toStat (totalBytes (languageTotals rest gql))) (languageTotals rest gql))"
  have "sorted (map (\<lambda>s. - bytes s) ?full)" by (rule sorted_sort_key)
  then have "sorted_wrt (\<lambda>a b. bytes b \<le> bytes a) ?full" by (simp add: sorted_map)
  then show ?thesis unfolding aggregate_alt by (rule sorted_wrt_take)
qed

lemma aggregate_member:
  assumes "s \<in> set (aggregateLanguageStats rest gql)"
  shows "\<exists>p\<in>set (languageTotals rest gql). s = toStat (totalBytes (languageTotals rest gql)) p"
proof -
  from assms have "s \<in> set (sort_key (\<lambda>s. - bytes s)
       (map (toStat (totalBytes (languageTotals rest gql))) (languageTotals rest gql)))"
    unfolding aggregate_alt by (rule in_set_takeD)
  then show ?thesis by auto
qed

lemma aggregate_percentage:
  assumes "s \<in> set (aggregateLanguageStats rest gql)"
  shows "percentage s =
     (if totalBytes (languageTotals rest gql) = 0 then 0
      else toFixed2 (fmul (fdiv (of_int (bytes s)) (of_int (totalBytes (languageTotals rest gql)))) 100))"
  using aggregate_member [OF assms] by (auto simp: toStat_def case_prod_unfold)

lemma aggregate_bytes_sum:
  assumes nn: "\<forall>p\<in>set (languageTotals rest gql). 0 \<le> total_bytes (snd p)"
  shows "sum_list (map bytes (aggregateLanguageStats rest gql)) \<le> totalBytes (languageTotals rest gql)"
proof -
  let ?T = "totalBytes (languageTotals rest gql)"
  let ?stats = "map (toStat ?T) (languageTotals rest gql)"
  let ?full = "sort_key (\<lambda>s. - bytes s) ?stats"
  have "\<forall>s\<in>set ?full. 0 \<le> bytes s" using nn by (auto simp: toStat_def case_prod_unfold)
  then have "sum_list (map bytes (take 8 ?full)) \<le> sum_list (map bytes ?full)"
    by (rule sum_list_take_le)
  also have "\<dots> = sum_list (map bytes ?stats)" by (rule sum_list_sort_key)
  also have "\<dots> = ?T" by (simp add: totalBytes_sum toStat_def comp_def case_prod_unfold)
  finally show ?thesis unfolding aggregate_alt .
qed

lemma aggregate_bytes_nonneg:
  assumes nn: "\<forall>p\<in>set (languageTotals rest gql). 0 \<le> total_bytes (snd p)"
    and s: "s \<in> set (aggregateLanguageStats rest gql)"
  shows "0 \<le> bytes s"
  using aggregate_member [OF s] nn by (auto simp: toStat_def case_prod_unfold)

lemma percentage_upper:
  assumes b: "0 \<le> b" and T: "0 < T"
  shows "toFixed2 (fmul (fdiv (of_int b) (of_int T)) 100)
           \<le> of_int b * (100 * (1 + 1 / 2 ^ 53) ^ 2 / of_int T) + 1 / 200"
proof -
  let ?u = "1 + 1 / 2 ^ 53 :: rat"
  let ?x = "of_int b / of_int T :: rat"
  have x: "0 \<le> ?x" using b T by simp
  have q0: "0 \<le> fl ?x" and q1: "fl ?x \<le> ?x * ?u"
    using fl_nonneg_bounds [OF x] by simp_all
  have y: "0 \<le> fl ?x * 100" using q0 by simp
  have "fl (fl ?x * 100) \<le> fl ?x * 100 * ?u"
    using fl_nonneg_bounds(2) [OF y] .
  also have "\<dots> \<le> (?x * ?u) * 100 * ?u"
    using q1 by (intro mult_right_mono) simp_all
  also have "\<dots> = of_int b * (100 * ?u ^ 2 / of_int T)"
    by (simp add: power2_eq_square)
  finally have "fl (fl ?x * 100) \<le> of_int b * (100 * ?u ^ 2 / of_int T)" .
  moreover have "toFixed2 (fl (fl ?x * 100)) \<le> fl (fl ?x * 100) + 1 / 200"
    by (rule toFixed2_le)
  ultimately show ?thesis by (simp add: fmul_def fdiv_def)
qed

lemma sum_list_hundredths:
  fixes f :: "'a \<Rightarrow> rat"
  shows "\<forall>x\<in>set xs. \<exists>k :: int. f x = of_int k / 100 \<Longrightarrow>
     \<exists>k :: int. sum_list (map f xs) = of_int k / 100"
proof (induction xs)
  case Nil
  have "sum_list (map f []) = of_int 0 / 100" by simp
  then show ?case by blast
next
  case (Cons x xs)
  then obtain k l :: int where "f x = of_int k / 100" "sum_list (map f xs) = of_int l / 100"
    by auto
  then have "sum_list (map f (x # xs)) = of_int (k + l) / 100"
    by (simp add: add_divide_distrib)
  then show ?case by blast
qed

lemma hundredths_below:
  fixes k :: int and n :: nat
  assumes "of_int k / 100 \<le> 100 * (1 + 1 / 2 ^ 53) ^ 2 + (of_nat n :: rat) / 200"
  shows "(of_int k :: rat) / 100 \<le> 100 + of_nat n / 200"
proof -
  have "(20000 * (1 + 1 / 2 ^ 53) ^ 2 :: rat) < 20001" by (simp add: power2_eq_square)
  moreover from assms have "(of_int (2 * k) :: rat) \<le> 20000 * (1 + 1 / 2 ^ 53) ^ 2 + of_nat n"
    by (simp add: field_simps)
  ultimately have "(of_int (2 * k) :: rat) < of_int (20001 + int n)" by simp
  then have "2 * k < 20001 + int n" by (simp only: of_int_less_iff)
  then have "2 * k \<le> 20000 + int n" by simp
  then have "(of_int (2 * k) :: rat) \<le> of_int (20000 + int n)" by (simp only: of_int_le_iff)
  then show ?thesis by (simp add: field_simps)
qed

lemma aggregate_sum:
  assumes nn: "\<forall>p\<in>set (languageTotals rest gql). 0 \<le> total_bytes (snd p)"
  shows "sum_list (map percentage (aggregateLanguageStats rest gql))
           \<le> 100 + of_nat (length (aggregateLanguageStats rest gql)) / 200"
proof -
  let ?T = "totalBytes (languageTotals rest gql)"
  let ?res = "aggregateLanguageStats rest gql"
  let ?c = "100 * (1 + 1 / 2 ^ 53) ^ 2 / of_int ?T :: rat"
  show ?thesis
  proof (cases "?T = 0")
    case True
    then have "\<forall>s\<in>set ?res. percentage s = 0" by (simp add: aggregate_percentage)
    then have "sum_list (map percentage ?res) = 0" by (rule sum_list_all_zero)
    then show ?thesis by simp
  next
    case False
    have "0 \<le> ?T" unfolding totalBytes_sum using nn by (intro sum_list_nonneg) auto
    with False have T: "0 < ?T" by simp
    have "sum_list (map percentage ?res)
        \<le> sum_list (map (\<lambda>s. of_int (bytes s) * ?c + 1 / 200) ?res)"
    proof (rule sum_list_mono)
      fix s assume s: "s \<in> set ?res"
      then have "percentage s = toFixed2 (fmul (fdiv (of_int (bytes s)) (of_int ?T)) 100)"
        using False by (simp add: aggregate_percentage)
      also have "\<dots> \<le> of_int (bytes s) * ?c + 1 / 200"
        using aggregate_bytes_nonneg [OF nn s] T by (rule percentage_upper)
      finally show "percentage s \<le> of_int (bytes s) * ?c + 1 / 200" .
    qed
    also have "\<dots> = of_int (sum_list (map bytes ?res)) * ?c + of_nat (length ?res) / 200"
      using sum_list_affine [of bytes ?c "1 / 200" ?res] by simp
    also have "\<dots> \<le> of_int ?T * ?c + of_nat (length ?res) / 200"
    proof -
      have "(of_int (sum_list (map bytes ?res)) :: rat) \<le> of_int ?T"
        using aggregate_bytes_sum [OF nn] by simp
      moreover have "0 \<le> ?c" using T by simp
      ultimately have "(of_int (sum_list (map bytes ?res)) :: rat) * ?c \<le> of_int ?T * ?c"
        by (rule mult_right_mono)
      then show ?thesis by simp
    qed
    also have "\<dots> = 100 * (1 + 1 / 2 ^ 53) ^ 2 + of_nat (length ?res) / 200" using T by simp
    finally have float: "sum_list (map percentage ?res)
        \<le> 100 * (1 + 1 / 2 ^ 53) ^ 2 + of_nat (length ?res) / 200" .
    have "\<forall>s\<in>set ?res. \<exists>k :: int. percentage s = of_int k / 100"
    proof
      fix s assume "s \<in> set ?res"
      then have "percentage s = toFixed2 (fmul (fdiv (of_int (bytes s)) (of_int ?T)) 100)"
        using False by (simp add: aggregate_percentage)
      then show "\<exists>k :: int. percentage s = of_int k / 100"
        using toFixed2_hundredth by simp
    qed
    then obtain k :: int where k: "sum_list (map percentage ?res) = of_int k / 100"
      using sum_list_hundredths [of ?res percentage] by blast
    from float show ?thesis unfolding k by (rule hundredths_below)
  qed
qed

lemma totalBytes_Map_set:
  "totalBytes (Map_set m k v) =
     totalBytes m - (case map_of m k of None \<Rightarrow> 0 | Some c \<Rightarrow> total_bytes c) + total_bytes v"
  unfolding totalBytes_sum by (induction m k v rule: Map_set.induct) auto

lemma totalBytes_edge_step:
  "totalBytes (fst (edge_step s edge)) = totalBytes (fst s) + edge_size edge"
  by (cases s) (simp add: edge_step_def Let_def totalBytes_Map_set split: option.splits)

lemma totalBytes_edges:
  "totalBytes (fst (foldl edge_step s es)) = totalBytes (fst s) + sum_list (map edge_size es)"
  by (induction es arbitrary: s) (simp_all add: totalBytes_edge_step)

lemma totalBytes_gql:
  "totalBytes (foldl gql_repo_step m rs) =
     totalBytes m + (\<Sum>repo\<leftarrow>rs. sum_list (map edge_size (languages_edges repo)))"
  by (induction rs arbitrary: m) (simp_all add: gql_repo_step_def totalBytes_edges)

lemma map_of_Map_set: "map_of (Map_set m k v) = (map_of m)(k \<mapsto> v)"
  by (induction m k v rule: Map_set.induct) (auto simp: fun_eq_iff)

lemma keys_Map_set: "fst ` set (Map_set m k v) = insert k (fst ` set m)"
  by (induction m k v rule: Map_set.induct) auto

lemma distinct_Map_set: "distinct (map fst m) \<Longrightarrow> distinct (map fst (Map_set m k v))"
  by (induction m k v rule: Map_set.induct) (auto simp: keys_Map_set)

lemma bytes_in_Map_set:
  "bytes_in (Map_set m k v) l = (if l = k then total_bytes v else bytes_in m l)"
  by (simp add: bytes_in_def map_of_Map_set)

lemma edge_step_fst:
  "\<exists>c. fst (edge_step s e) = Map_set (fst s) (node_name e) c \<and>
       total_bytes c = bytes_in (fst s) (node_name e) + edge_size e"
proof (cases s)
  case (Pair m seen)
  show ?thesis
    unfolding Pair edge_step_def Let_def bytes_in_def
    by (cases "map_of m (node_name e)"; simp; intro conjI impI;
        (rule exI, rule conjI, rule refl, simp))
qed

lemma edge_step_keys:
  "fst ` set (fst (edge_step s e)) = insert (node_name e) (fst ` set (fst s))"
proof -
  obtain c where "fst (edge_step s e) = Map_set (fst s) (node_name e) c"
    using edge_step_fst [of s e] by (elim exE conjE)
  then show ?thesis by (simp only: keys_Map_set)
qed

lemma edge_step_distinct:
  "distinct (map fst (fst s)) \<Longrightarrow> distinct (map fst (fst (edge_step s e)))"
proof -
  assume d: "distinct (map fst (fst s))"
  obtain c where "fst (edge_step s e) = Map_set (fst s) (node_name e) c"
    using edge_step_fst [of s e] by (elim exE conjE)
  then show ?thesis using d by (simp only: distinct_Map_set)
qed

lemma edge_step_bytes:
  "bytes_in (fst (edge_step s e)) l =
     bytes_in (fst s) l + (if node_name e = l then edge_size e else 0)"
proof -
  obtain c where c: "fst (edge_step s e) = Map_set (fst s) (node_name e) c"
      "total_bytes c = bytes_in (fst s) (node_name e) + edge_size e"
    using edge_step_fst [of s e] by (elim exE conjE)
  show ?thesis unfolding c(1) bytes_in_Map_set using c(2) by auto
qed

lemma edges_fold_keys:
  "fst ` set (fst (foldl edge_step s es)) = fst ` set (fst s) \<union> node_name ` set es"
  by (induction es arbitrary: s) (simp_all add: edge_step_keys)

lemma edges_fold_distinct:
  "distinct (map fst (fst s)) \<Longrightarrow> distinct (map fst (fst (foldl edge_step s es)))"
  by (induction es arbitrary: s) (simp_all add: edge_step_distinct)

lemma edges_fold_bytes:
  "bytes_in (fst (foldl edge_step s es)) l =
     bytes_in (fst s) l + (\<Sum>edge\<leftarrow>filter (\<lambda>e. node_name e = l) es. edge_size edge)"
  by (induction es arbitrary: s) (simp_all add: edge_step_bytes)

lemma gql_repo_step_keys:
  "fst ` set (gql_repo_step m r) = fst ` set m \<union> node_name ` set (languages_edges r)"
  using edges_fold_keys [of "(m, [])" "languages_edges r"] by (simp add: gql_repo_step_def)

lemma gql_repo_step_distinct:
  "distinct (map fst m) \<Longrightarrow> distinct (map fst (gql_repo_step m r))"
  using edges_fold_distinct [of "(m, [])" "languages_edges r"] by (simp add: gql_repo_step_def)

lemma gql_repo_step_bytes:
  "bytes_in (gql_repo_step m r) l =
     bytes_in m l + (\<Sum>edge\<leftarrow>filter (\<lambda>e. node_name e = l) (languages_edges r). edge_size edge)"
  using edges_fold_bytes [of "(m, [])" "languages_edges r" l] by (simp add: gql_repo_step_def)

lemma gql_fold_keys:
  "fst ` set (foldl gql_repo_step m rs) = fst ` set m \<union> gql_language_names rs"
  by (induction rs arbitrary: m)
    (simp_all add: gql_language_names_def gql_repo_step_keys Un_assoc)

lemma gql_fold_distinct:
  "distinct (map fst m) \<Longrightarrow> distinct (map fst (foldl gql_repo_step m rs))"
  by (induction rs arbitrary: m) (simp_all add: gql_repo_step_distinct)

lemma gql_fold_bytes:
  "bytes_in (foldl gql_repo_step m rs) l = bytes_in m l + gql_language_bytes rs l"
  by (induction rs arbitrary: m) (simp_all add: gql_language_bytes_def gql_repo_step_bytes)

lemma rest_repo_step_skip:
  "language repo = None \<or> language repo = Some [] \<Longrightarrow> rest_repo_step m repo = m"
  by (auto simp: rest_repo_step_def)

lemma rest_repo_step_set:
  assumes "language repo = Some k" "k \<noteq> []"
  shows "\<exists>c. rest_repo_step m repo = Map_set m k c \<and> total_bytes c = bytes_in m k + 1"
proof (cases "map_of m k")
  case None
  show ?thesis
    unfolding rest_repo_step_def Let_def bytes_in_def assms(1)
    by (simp add: None assms(2); (rule exI, rule conjI, rule refl, simp))
next
  case (Some a)
  show ?thesis
    unfolding rest_repo_step_def Let_def bytes_in_def assms(1)
    by (simp add: Some assms(2); (rule exI, rule conjI, rule refl, simp))
qed

lemma rest_repo_step_keys:
  "fst ` set (rest_repo_step m repo) = fst ` set m \<union> {l. l \<noteq> [] \<and> language repo = Some l}"
proof (cases "language repo = None \<or> language repo = Some []")
  case True
  have e: "{l. l \<noteq> [] \<and> language repo = Some l} = {}" using True by auto
  show ?thesis unfolding rest_repo_step_skip [OF True] e by simp
next
  case False
  then obtain k where k: "language repo = Some k" "k \<noteq> []" by (cases "language repo") auto
  obtain c where c: "rest_repo_step m repo = Map_set m k c"
    using rest_repo_step_set [OF k, of m] by (elim exE conjE)
  have e: "{l. l \<noteq> [] \<and> language repo = Some l} = {k}" using k by auto
  show ?thesis unfolding c keys_Map_set e by simp
qed

lemma rest_repo_step_distinct:
  assumes d: "distinct (map fst m)"
  shows "distinct (map fst (rest_repo_step m repo))"
proof (cases "language repo = None \<or> language repo = Some []")
  case True
  show ?thesis using rest_repo_step_skip [OF True] d by simp
next
  case False
  then obtain k where k: "language repo = Some k" "k \<noteq> []" by (cases "language repo") auto
  obtain c where c: "rest_repo_step m repo = Map_set m k c"
    using rest_repo_step_set [OF k, of m] by (elim exE conjE)
  show ?thesis unfolding c using d by (rule distinct_Map_set)
qed

lemma rest_repo_step_bytes:
  "bytes_in (rest_repo_step m repo) l =
     bytes_in m l + (if l \<noteq> [] \<and> language repo = Some l then 1 else 0)"
proof (cases "language repo = None \<or> language repo = Some []")
  case True
  show ?thesis using rest_repo_step_skip [OF True] True by auto
next
  case False
  then obtain k where k: "language repo = Some k" "k \<noteq> []" by (cases "language repo") auto
  obtain c where c: "rest_repo_step m repo = Map_set m k c" "total_bytes c = bytes_in m k + 1"
    using rest_repo_step_set [OF k, of m] by (elim exE conjE)
  show ?thesis unfolding c(1) bytes_in_Map_set using c(2) k by auto
qed

lemma rest_fold_keys:
  "fst ` set (foldl rest_repo_step m rs) = fst ` set m \<union> rest_language_names rs"
proof (induction rs arbitrary: m)
  case Nil
  then show ?case by (simp add: rest_language_names_def)
next
  case (Cons r rs)
  have "rest_language_names (r # rs) = {l. l \<noteq> [] \<and> language r = Some l} \<union> rest_language_names rs"
    unfolding rest_language_names_def by auto
  then show ?case by (simp add: Cons.IH rest_repo_step_keys Un_assoc)
qed

lemma rest_fold_distinct:
  "distinct (map fst m) \<Longrightarrow> distinct (map fst (foldl rest_repo_step m rs))"
  by (induction rs arbitrary: m) (simp_all add: rest_repo_step_distinct)

lemma rest_fold_bytes:
  "l \<noteq> [] \<Longrightarrow> bytes_in (foldl rest_repo_step m rs) l = bytes_in m l + rest_language_bytes rs l"
  by (induction rs arbitrary: m) (simp_all add: rest_language_bytes_def rest_repo_step_bytes)

lemma fl_nonneg_lower:
  assumes "0 \<le> x"
  shows "x * (1 - 1 / 2 ^ 53) \<le> fl x"
proof (cases "x = 0")
  case True
  then show ?thesis by (simp add: fl_def)
next
  case False
  with assms have x: "0 < x" by simp
  define ulp :: rat where "ulp = 2 powi (ilog2 x - 52)"
  define m where "m = round_half_even (x / ulp)"
  have upos: "0 < ulp" by (simp add: ulp_def)
  have fl: "fl x = of_int m * ulp"
    using x by (simp add: fl_def Let_def ulp_def m_def)
  have "ulp = 2 powi (ilog2 x) / 2 ^ 52"
    by (simp add: ulp_def power_int_diff)
  also have "\<dots> \<le> x / 2 ^ 52"
    using ilog2_bounds(1) [OF x] by (simp add: divide_right_mono)
  finally have ulp: "ulp \<le> x / 2 ^ 52" .
  from round_half_even_near [of "x / ulp"]
  have near: "x / ulp - 1 / 2 \<le> of_int m"
    unfolding m_def by linarith
  have "x * (1 - 1 / 2 ^ 53) = x - (x / 2 ^ 52) / 2" by (simp add: algebra_simps)
  also have "\<dots> \<le> x - ulp / 2" using ulp by simp
  also have "\<dots> = (x / ulp - 1 / 2) * ulp" using upos by (simp add: algebra_simps)
  also have "\<dots> \<le> of_int m * ulp"
    using near upos by (intro mult_right_mono) simp_all
  finally show ?thesis by (simp only: fl)
qed

lemma toFixed2_ge: "x - 1 / 200 \<le> toFixed2 x"
proof (cases "x < 0")
  case False
  have "x * 100 + 1 / 2 < of_int \<lfloor>x * 100 + 1 / 2\<rfloor> + 1" by linarith
  then show ?thesis using False by (simp add: toFixed2_def le_divide_eq)
next
  case True
  define f :: rat where "f = of_int \<lfloor>(- x) * 100 + 1 / 2\<rfloor>"
  have "f \<le> (- x) * 100 + 1 / 2" unfolding f_def by (rule of_int_floor_le)
  then have "f / 100 \<le> ((- x) * 100 + 1 / 2) / 100" by (rule divide_right_mono) simp
  then have "f / 100 \<le> - x + 1 / 200" by simp
  moreover have "toFixed2 x = - (f / 100)" using True by (simp add: toFixed2_def f_def)
  ultimately show ?thesis by linarith
qed

lemma percentage_near:
  assumes b: "0 \<le> b" and bT: "b \<le> T" and T: "0 < T"
  shows "\<bar>toFixed2 (fmul (fdiv (of_int b) (of_int T)) 100) - 100 * of_int b / of_int T\<bar>
           \<le> 1 / 200 + 1 / 10 ^ 13"
proof -
  let ?u = "1 / 2 ^ 53 :: rat"
  let ?x = "of_int b / of_int T :: rat"
  let ?q = "fl ?x"
  let ?r = "fl (?q * 100)"
  have x0: "0 \<le> ?x" using b T by simp
  have x1: "?x \<le> 1" using bT T by simp
  have q0: "0 \<le> ?q" and qhi: "?q \<le> ?x * (1 + ?u)"
    using fl_nonneg_bounds [OF x0] by simp_all
  have qlo: "?x * (1 - ?u) \<le> ?q" by (rule fl_nonneg_lower [OF x0])
  have y0: "0 \<le> ?q * 100" using q0 by simp
  have "?r \<le> ?q * 100 * (1 + ?u)" by (rule fl_nonneg_bounds(2) [OF y0])
  also have "\<dots> \<le> (?x * (1 + ?u)) * 100 * (1 + ?u)"
    using qhi by (intro mult_right_mono) simp_all
  also have "\<dots> = ?x * 100 + ?x * (100 * (1 + ?u) ^ 2 - 100)"
    by (simp add: power2_eq_square algebra_simps)
  also have "\<dots> \<le> ?x * 100 + 1 * (100 * (1 + ?u) ^ 2 - 100)"
    using x1 by (intro add_left_mono mult_right_mono) (simp_all add: power2_eq_square)
  also have "\<dots> \<le> ?x * 100 + 1 / 10 ^ 13"
    by (simp add: power2_eq_square)
  finally have hi: "?r \<le> ?x * 100 + 1 / 10 ^ 13" .
  have "?x * 100 - 1 / 10 ^ 13 \<le> ?x * 100 - 1 * (100 - 100 * (1 - ?u) ^ 2)"
    by (simp add: power2_eq_square)
  also have "\<dots> \<le> ?x * 100 - ?x * (100 - 100 * (1 - ?u) ^ 2)"
    using x1 by (intro diff_left_mono mult_right_mono) (simp_all add: power2_eq_square)
  also have "\<dots> = (?x * (1 - ?u)) * 100 * (1 - ?u)"
    by (simp add: power2_eq_square algebra_simps)
  also have "\<dots> \<le> ?q * 100 * (1 - ?u)"
    using qlo by (intro mult_right_mono) simp_all
  also have "\<dots> \<le> ?r" by (rule fl_nonneg_lower [OF y0])
  finally have lo: "?x * 100 - 1 / 10 ^ 13 \<le> ?r" .
  have "toFixed2 ?r \<le> ?r + 1 / 200" "?r - 1 / 200 \<le> toFixed2 ?r"
    by (rule toFixed2_le, rule toFixed2_ge)
  with hi lo have "\<bar>toFixed2 ?r - ?x * 100\<bar> \<le> 1 / 200 + 1 / 10 ^ 13"
    by linarith
  then show ?thesis by (simp add: fmul_def fdiv_def mult.commute)
qed

lemma member_le_sum_list_int:
  fixes f :: "'a \<Rightarrow> int"
  assumes "x \<in> set xs" and "\<forall>y\<in>set xs. 0 \<le> f y"
  shows "f x \<le> sum_list (map f xs)"
  using assms
proof (induction xs)
  case Nil
  then show ?case by simp
next
  case (Cons a xs)
  have nn: "0 \<le> sum_list (map f xs)" using Cons.prems(2) by (intro sum_list_nonneg) auto
  show ?case
  proof (cases "x = a")
    case True
    then show ?thesis using nn by simp
  next
    case False
    with Cons.prems have "x \<in> set xs" "\<forall>y\<in>set xs. 0 \<le> f y" by auto
    then have "f x \<le> sum_list (map f xs)" by (rule Cons.IH)
    moreover have "0 \<le> f a" using Cons.prems(2) by simp
    ultimately show ?thesis by simp
  qed
qed

lemma bytes_in_Nil: "bytes_in [] l = 0"
  by (simp add: bytes_in_def)

lemma languageTotals_cases:
  "(\<exists>xs. languageTotals rest gql = foldl gql_repo_step [] xs \<and>
        input_language_names rest gql = gql_language_names xs \<and>
        input_language_bytes rest gql = gql_language_bytes xs) \<or>
   (languageTotals rest gql = foldl rest_repo_step [] rest \<and>
        input_language_names rest gql = rest_language_names rest \<and>
        input_language_bytes rest gql = rest_language_bytes rest)"
proof (cases gql)
  case None
  then show ?thesis
    by (simp add: languageTotals_def input_language_names_def input_language_bytes_def fun_eq_iff)
next
  case (Some xs)
  show ?thesis
  proof (cases xs)
    case Nil
    with Some show ?thesis
      by (simp add: languageTotals_def input_language_names_def input_language_bytes_def fun_eq_iff)
  next
    case (Cons r rs)
    have "languageTotals rest gql = foldl gql_repo_step [] xs"
      "input_language_names rest gql = gql_language_names xs"
      "input_language_bytes rest gql = gql_language_bytes xs"
      unfolding Some Cons
      by (simp_all add: languageTotals_def input_language_names_def input_language_bytes_def
          fun_eq_iff)
    then show ?thesis by (intro disjI1 exI [of _ xs] conjI)
  qed
qed

lemma languageTotals_keys:
  "fst ` set (languageTotals rest gql) = input_language_names rest gql"
  using languageTotals_cases [of rest gql]
proof (elim disjE exE conjE)
  fix xs
  assume "languageTotals rest gql = foldl gql_repo_step [] xs"
    "input_language_names rest gql = gql_language_names xs"
  then show ?thesis using gql_fold_keys [of "[]" xs] by simp
next
  assume "languageTotals rest gql = foldl rest_repo_step [] rest"
    "input_language_names rest gql = rest_language_names rest"
  then show ?thesis using rest_fold_keys [of "[]" rest] by simp
qed

lemma languageTotals_distinct:
  "distinct (map fst (languageTotals rest gql))"
proof -
  have e: "distinct (map fst ([] :: (string \<times> LanguageTotal) list))" by simp
  show ?thesis
    using languageTotals_cases [of rest gql]
  proof (elim disjE exE conjE)
    fix xs
    assume "languageTotals rest gql = foldl gql_repo_step [] xs"
    then show ?thesis using gql_fold_distinct [OF e, of xs] by simp
  next
    assume "languageTotals rest gql = foldl rest_repo_step [] rest"
    then show ?thesis using rest_fold_distinct [OF e, of rest] by simp
  qed
qed

lemma rest_language_names_nonempty: "l \<in> rest_language_names rest \<Longrightarrow> l \<noteq> []"
  by (simp add: rest_language_names_def)

lemma languageTotals_bytes_in:
  assumes "l \<in> input_language_names rest gql"
  shows "bytes_in (languageTotals rest gql) l = input_language_bytes rest gql l"
  using languageTotals_cases [of rest gql]
proof (elim disjE exE conjE)
  fix xs
  assume "languageTotals rest gql = foldl gql_repo_step [] xs"
    "input_language_bytes rest gql = gql_language_bytes xs"
  then show ?thesis using gql_fold_bytes [of "[]" xs l] by (simp add: bytes_in_Nil)
next
  assume a: "languageTotals rest gql = foldl rest_repo_step [] rest"
    "input_language_names rest gql = rest_language_names rest"
    "input_language_bytes rest gql = rest_language_bytes rest"
  from assms a(2) have "l \<noteq> []" by (simp add: rest_language_names_nonempty)
  then show ?thesis using rest_fold_bytes [of l "[]" rest] a by (simp add: bytes_in_Nil)
qed

lemma languageTotals_entry:
  assumes "p \<in> set (languageTotals rest gql)"
  shows "fst p \<in> input_language_names rest gql"
    and "total_bytes (snd p) = input_language_bytes rest gql (fst p)"
proof -
  show n: "fst p \<in> input_language_names rest gql"
    using assms languageTotals_keys [of rest gql] by (metis imageI)
  have "map_of (languageTotals rest gql) (fst p) = Some (snd p)"
    using assms languageTotals_distinct [of rest gql] by (intro map_of_is_SomeI) simp_all
  then have "bytes_in (languageTotals rest gql) (fst p) = total_bytes (snd p)"
    by (simp add: bytes_in_def)
  then show "total_bytes (snd p) = input_language_bytes rest gql (fst p)"
    using languageTotals_bytes_in [OF n] by simp
qed

lemma totalBytes_input:
  "totalBytes (languageTotals rest gql) =
     (\<Sum>l\<in>input_language_names rest gql. input_language_bytes rest gql l)"
proof -
  let ?m = "languageTotals rest gql"
  have "totalBytes ?m = sum_list (map (total_bytes \<circ> snd) ?m)" by (rule totalBytes_sum)
  also have "\<dots> = sum_list (map (input_language_bytes rest gql \<circ> fst) ?m)"
    by (intro arg_cong [where f = sum_list] map_cong refl) (simp add: languageTotals_entry(2))
  also have "\<dots> = sum_list (map (input_language_bytes rest gql) (map fst ?m))" by simp
  also have "\<dots> = sum (input_language_bytes rest gql) (set (map fst ?m))"
    by (rule sum_list_distinct_conv_sum_set [OF languageTotals_distinct])
  also have "set (map fst ?m) = input_language_names rest gql"
    using languageTotals_keys [of rest gql] by simp
  finally show ?thesis .
qed

lemma toStat_sel: "name (toStat T p) = fst p" "bytes (toStat T p) = total_bytes (snd p)"
  by (simp_all add: toStat_def case_prod_unfold)

lemma aggregate_entry:
  assumes "s \<in> set (aggregateLanguageStats rest gql)"
  shows "name s \<in> input_language_names rest gql"
    and "bytes s = input_language_bytes rest gql (name s)"
proof -
  from aggregate_member [OF assms] obtain p where p: "p \<in> set (languageTotals rest gql)"
    and s: "s = toStat (totalBytes (languageTotals rest gql)) p" by (elim bexE)
  show "name s \<in> input_language_names rest gql"
    unfolding s toStat_sel by (rule languageTotals_entry(1) [OF p])
  show "bytes s = input_language_bytes rest gql (name s)"
    unfolding s toStat_sel by (rule languageTotals_entry(2) [OF p])
qed

lemma distinct_map_sort_key:
  "distinct (map f (sort_key k xs)) \<longleftrightarrow> distinct (map f xs)"
proof -
  have "mset (map f (sort_key k xs)) = mset (map f xs)" by simp
  then show ?thesis by (rule mset_eq_imp_distinct_iff)
qed

lemma aggregate_distinct: "distinct (map name (aggregateLanguageStats rest gql))"
proof -
  let ?T = "totalBytes (languageTotals rest gql)"
  let ?stats = "map (toStat ?T) (languageTotals rest gql)"
  have "name \<circ> toStat ?T = fst" by (rule ext) (simp add: toStat_sel)
  then have "map name ?stats = map fst (languageTotals rest gql)"
    by (simp only: map_map)
  then have "distinct (map name ?stats)" using languageTotals_distinct [of rest gql] by (simp only:)
  then have "distinct (map name (sort_key (\<lambda>s. - bytes s) ?stats))"
    by (simp only: distinct_map_sort_key)
  then have "distinct (take 8 (map name (sort_key (\<lambda>s. - bytes s) ?stats)))"
    by (rule distinct_take)
  then show ?thesis unfolding aggregate_alt take_map .
qed

lemma aggregate_length:
  "length (aggregateLanguageStats rest gql) = min 8 (card (input_language_names rest gql))"
proof -
  have "card (input_language_names rest gql) = card (set (map fst (languageTotals rest gql)))"
    using languageTotals_keys [of rest gql] by simp
  also have "\<dots> = length (map fst (languageTotals rest gql))"
    by (rule distinct_card [OF languageTotals_distinct])
  finally show ?thesis by (simp add: aggregate_alt min.commute)
qed

lemma aggregate_largest:
  assumes l: "l \<in> input_language_names rest gql"
    and out: "l \<notin> name ` set (aggregateLanguageStats rest gql)"
  shows "length (aggregateLanguageStats rest gql) = 8"
    and "\<forall>s\<in>set (aggregateLanguageStats rest gql). input_language_bytes rest gql l \<le> bytes s"
proof -
  let ?T = "totalBytes (languageTotals rest gql)"
  let ?full = "sort_key (\<lambda>s. - bytes s) (map (toStat ?T) (languageTotals rest gql))"
  from l obtain p where p: "p \<in> set (languageTotals rest gql)" and lp: "l = fst p"
    using languageTotals_keys [of rest gql] by (metis imageE)
  define x where "x = toStat ?T p"
  have nx: "name x = l" and bx: "bytes x = input_language_bytes rest gql l"
    unfolding x_def toStat_sel using lp languageTotals_entry(2) [OF p] by simp_all
  have "x \<in> set ?full" using p by (simp add: x_def)
  then have "x \<in> set (take 8 ?full @ drop 8 ?full)" by (simp only: append_take_drop_id)
  moreover have "x \<notin> set (take 8 ?full)"
  proof
    assume "x \<in> set (take 8 ?full)"
    then have "name x \<in> name ` set (aggregateLanguageStats rest gql)"
      unfolding aggregate_alt by (rule imageI)
    with out nx show False by simp
  qed
  ultimately have xd: "x \<in> set (drop 8 ?full)" unfolding set_append by blast
  then have "drop 8 ?full \<noteq> []" by auto
  then have "8 < length ?full" by simp
  then show "length (aggregateLanguageStats rest gql) = 8"
    unfolding aggregate_alt by simp
  have "sorted (map (\<lambda>s. - bytes s) ?full)" by (rule sorted_sort_key)
  then have "sorted_wrt (\<lambda>a b. bytes b \<le> bytes a) ?full" by (simp add: sorted_map)
  then have "sorted_wrt (\<lambda>a b. bytes b \<le> bytes a) (take 8 ?full @ drop 8 ?full)"
    by (simp only: append_take_drop_id)
  then have "\<forall>a\<in>set (take 8 ?full). \<forall>b\<in>set (drop 8 ?full). bytes b \<le> bytes a"
    by (simp only: sorted_wrt_append) simp
  with xd have "\<forall>a\<in>set (take 8 ?full). bytes x \<le> bytes a" by simp
  then show "\<forall>s\<in>set (aggregateLanguageStats rest gql). input_language_bytes rest gql l \<le> bytes s"
    unfolding aggregate_alt bx .
qed

lemma aggregate_near:
  assumes nn: "\<forall>p\<in>set (languageTotals rest gql). 0 \<le> total_bytes (snd p)"
    and s: "s \<in> set (aggregateLanguageStats rest gql)"
    and T: "totalBytes (languageTotals rest gql) \<noteq> 0"
  shows "\<bar>percentage s - 100 * of_int (bytes s) / of_int (totalBytes (languageTotals rest gql))\<bar>
           \<le> 1 / 200 + 1 / 10 ^ 13"
proof -
  let ?m = "languageTotals rest gql"
  let ?T = "totalBytes ?m"
  from aggregate_member [OF s] obtain p where p: "p \<in> set ?m" and sp: "s = toStat ?T p"
    by (elim bexE)
  have b: "bytes s = total_bytes (snd p)" unfolding sp toStat_sel ..
  have b0: "0 \<le> bytes s" using nn p b by simp
  have "(total_bytes \<circ> snd) p \<le> sum_list (map (total_bytes \<circ> snd) ?m)"
    using p nn by (intro member_le_sum_list_int) simp_all
  then have bT: "bytes s \<le> ?T" by (simp add: b totalBytes_sum)
  with b0 T have Tpos: "0 < ?T" by simp
  show ?thesis
    unfolding aggregate_percentage [OF s] using T percentage_near [OF b0 bT Tpos] by simp
qed

text \<open>
  Claim C3, as the code has it. The list returned by \<open>aggregateLanguageStats\<close> is
  sorted by descending bytes and has at most 8 entries. Every percentage is the bytes
  of the entry divided by the bytes of all languages, times 100, rounded to two
  decimals, and is 0 when the bytes of all languages are 0; the quotient and the product
  are computed as doubles before the rounding to two decimals. With the graph data the
  bytes of all languages are the sizes of all edges together. Rounding can lift every
  percentage by up to 0.005: when no edge has a negative size, the percentages of the
  \<open>n\<close> returned entries sum to at most \<open>100 + n * 0.005\<close>, so to at most 100.04,
  and every percentage is within \<open>0.005 + 1 / 10 ^ 13\<close> of the exact share of its
  bytes.

  The list is tied to the input: its names are distinct languages of the input, each
  with the bytes that the input has for that language (the sizes of its edges together,
  or without graph data the number of repositories with that primary language); its
  length is the number of languages of the input, capped at 8; a language of the input
  that is left out has no more bytes than any returned entry; and the bytes of all
  languages are the bytes of the languages of the input together.
\<close>

theorem aggregateLanguageStats_spec:
  "sorted_wrt (\<lambda>a b. bytes b \<le> bytes a) (aggregateLanguageStats rest gql) \<and>
   length (aggregateLanguageStats rest gql) \<le> 8 \<and>
   (\<forall>s\<in>set (aggregateLanguageStats rest gql).
      percentage s =
        (if totalBytes (languageTotals rest gql) = 0 then 0
         else toFixed2 (fmul (fdiv (of_int (bytes s))
                 (of_int (totalBytes (languageTotals rest gql)))) 100))) \<and>
   (\<forall>r rs. gql = Some (r # rs) \<longrightarrow>
      totalBytes (languageTotals rest gql) =
        (\<Sum>repo\<leftarrow>r # rs. sum_list (map edge_size (languages_edges repo)))) \<and>
   ((\<forall>repo\<in>set (case gql of None \<Rightarrow> [] | Some rs \<Rightarrow> rs).
       \<forall>edge\<in>set (languages_edges repo). 0 \<le> edge_size edge) \<longrightarrow>
      sum_list (map percentage (aggregateLanguageStats rest gql))
        \<le> 100 + of_nat (length (aggregateLanguageStats rest gql)) / 200 \<and>
      sum_list (map percentage (aggregateLanguageStats rest gql)) \<le> 10004 / 100 \<and>
      (\<forall>s\<in>set (aggregateLanguageStats rest gql).
         totalBytes (languageTotals rest gql) \<noteq> 0 \<longrightarrow>
         \<bar>percentage s
            - 100 * of_int (bytes s) / of_int (totalBytes (languageTotals rest gql))\<bar>
           \<le> 1 / 200 + 1 / 10 ^ 13)) \<and>
   distinct (map name (aggregateLanguageStats rest gql)) \<and>
   length (aggregateLanguageStats rest gql) = min 8 (card (input_language_names rest gql)) \<and>
   (\<forall>s\<in>set (aggregateLanguageStats rest gql).
      name s \<in> input_language_names rest gql \<and>
      bytes s = input_language_bytes rest gql (name s)) \<and>
   (\<forall>l\<in>input_language_names rest gql.
      l \<in> name ` set (aggregateLanguageStats rest gql) \<or>
      length (aggregateLanguageStats rest gql) = 8 \<and>
      (\<forall>s\<in>set (aggregateLanguageStats rest gql). input_language_bytes rest gql l \<le> bytes s)) \<and>
   totalBytes (languageTotals rest gql) =
     (\<Sum>l\<in>input_language_names rest gql. input_language_bytes rest gql l)"
proof -
  let ?R = "aggregateLanguageStats rest gql"
  let ?T = "totalBytes (languageTotals rest gql)"
  have c1: "sorted_wrt (\<lambda>a b. bytes b \<le> bytes a) ?R"
    by (rule aggregate_sorted)
  have c2: "length ?R \<le> 8"
    by (simp add: aggregate_alt)
  have c3: "\<forall>s\<in>set ?R. percentage s =
        (if ?T = 0 then 0 else toFixed2 (fmul (fdiv (of_int (bytes s)) (of_int ?T)) 100))"
    by (intro ballI) (rule aggregate_percentage)
  have c4: "\<forall>r rs. gql = Some (r # rs) \<longrightarrow>
      ?T = (\<Sum>repo\<leftarrow>r # rs. sum_list (map edge_size (languages_edges repo)))"
  proof (intro allI impI)
    fix r rs
    assume "gql = Some (r # rs)"
    then show "?T = (\<Sum>repo\<leftarrow>r # rs. sum_list (map edge_size (languages_edges repo)))"
      using totalBytes_gql [of "[]" "r # rs"]
      by (simp add: languageTotals_def totalBytes_def)
  qed
  have c5: "(\<forall>repo\<in>set (case gql of None \<Rightarrow> [] | Some rs \<Rightarrow> rs).
       \<forall>edge\<in>set (languages_edges repo). 0 \<le> edge_size edge) \<longrightarrow>
      sum_list (map percentage ?R) \<le> 100 + of_nat (length ?R) / 200 \<and>
      sum_list (map percentage ?R) \<le> 10004 / 100 \<and>
      (\<forall>s\<in>set ?R. ?T \<noteq> 0 \<longrightarrow>
         \<bar>percentage s - 100 * of_int (bytes s) / of_int ?T\<bar> \<le> 1 / 200 + 1 / 10 ^ 13)"
  proof (intro impI)
    assume nn: "\<forall>repo\<in>set (case gql of None \<Rightarrow> [] | Some rs \<Rightarrow> rs).
       \<forall>edge\<in>set (languages_edges repo). 0 \<le> edge_size edge"
    note nn' = nonneg_languageTotals [OF nn, of rest]
    have bound: "sum_list (map percentage ?R) \<le> 100 + of_nat (length ?R) / 200"
      by (rule aggregate_sum [OF nn'])
    have "(of_nat (length ?R) :: rat) \<le> of_nat 8"
      using c2 by (simp only: of_nat_le_iff)
    then have "(of_nat (length ?R) :: rat) / 200 \<le> 4 / 100"
      by simp
    with bound have b2: "sum_list (map percentage ?R) \<le> 10004 / 100"
      by simp
    have near: "\<forall>s\<in>set ?R. ?T \<noteq> 0 \<longrightarrow>
         \<bar>percentage s - 100 * of_int (bytes s) / of_int ?T\<bar> \<le> 1 / 200 + 1 / 10 ^ 13"
      by (intro ballI impI) (rule aggregate_near [OF nn'])
    show "sum_list (map percentage ?R) \<le> 100 + of_nat (length ?R) / 200 \<and>
      sum_list (map percentage ?R) \<le> 10004 / 100 \<and>
      (\<forall>s\<in>set ?R. ?T \<noteq> 0 \<longrightarrow>
         \<bar>percentage s - 100 * of_int (bytes s) / of_int ?T\<bar> \<le> 1 / 200 + 1 / 10 ^ 13)"
      by (intro conjI bound b2 near)
  qed
  have c6: "distinct (map name ?R)" by (rule aggregate_distinct)
  have c7: "length ?R = min 8 (card (input_language_names rest gql))" by (rule aggregate_length)
  have c8: "\<forall>s\<in>set ?R. name s \<in> input_language_names rest gql \<and>
      bytes s = input_language_bytes rest gql (name s)"
    by (intro ballI conjI) (rule aggregate_entry(1), assumption, rule aggregate_entry(2), assumption)
  have c9: "\<forall>l\<in>input_language_names rest gql.
      l \<in> name ` set ?R \<or>
      length ?R = 8 \<and> (\<forall>s\<in>set ?R. input_language_bytes rest gql l \<le> bytes s)"
  proof (intro ballI)
    fix l
    assume l: "l \<in> input_language_names rest gql"
    show "l \<in> name ` set ?R \<or>
      length ?R = 8 \<and> (\<forall>s\<in>set ?R. input_language_bytes rest gql l \<le> bytes s)"
    proof (cases "l \<in> name ` set ?R")
      case True
      then show ?thesis by (rule disjI1)
    next
      case False
      show ?thesis
        by (intro disjI2 conjI) (rule aggregate_largest(1) [OF l False], rule aggregate_largest(2) [OF l False])
    qed
  qed
  have c10: "?T = (\<Sum>l\<in>input_language_names rest gql. input_language_bytes rest gql l)"
    by (rule totalBytes_input)
  show ?thesis
    by (intro conjI) (rule c1, rule c2, rule c3, rule c4, rule c5, rule c6, rule c7, rule c8,
        rule c9, rule c10)
qed

text \<open>
  Claim C3 on one repository with 29996 bytes of TypeScript and 2 bytes each of CSS and
  HTML: no size is negative, so the percentages sum to at most 100.04; the bytes of all
  languages are 30000; the three languages of the input are all returned, and the entry
  of CSS has the 2 bytes of the input and a percentage next to its exact share.
\<close>

theorem aggregateLanguageStats_spec_witness:
  "sum_list (map percentage (aggregateLanguageStats [] (Some example_gql))) \<le> 10004 / 100 \<and>
   length (aggregateLanguageStats [] (Some example_gql)) \<le> 8 \<and>
   totalBytes (languageTotals [] (Some example_gql)) = 30000 \<and>
   length (aggregateLanguageStats [] (Some example_gql)) = 3 \<and>
   ''CSS'' \<in> name ` set (aggregateLanguageStats [] (Some example_gql)) \<and>
   (\<exists>s. s \<in> set (aggregateLanguageStats [] (Some example_gql)) \<and> name s = ''CSS'' \<and>
      bytes s = 2 \<and> \<bar>percentage s - 200 / 30000\<bar> \<le> 1 / 200 + 1 / 10 ^ 13)"
proof -
  let ?R = "aggregateLanguageStats [] (Some example_gql)"
  let ?T = "totalBytes (languageTotals [] (Some example_gql))"
  let ?N = "input_language_names [] (Some example_gql)"
  note spec = aggregateLanguageStats_spec [of "[]" "Some example_gql"]
  have nn: "\<forall>repo\<in>set (case Some example_gql of None \<Rightarrow> [] | Some rs \<Rightarrow> rs).
       \<forall>edge\<in>set (languages_edges repo). 0 \<le> edge_size edge"
    by (simp add: example_gql_def)
  have ex: "Some example_gql = Some (hd example_gql # tl example_gql)"
    by (simp add: example_gql_def)
  have names: "?N = {''TypeScript'', ''CSS'', ''HTML''}"
    by (simp add: input_language_names_def gql_language_names_def example_gql_def)
  have card: "card ?N = 3"
    unfolding names by simp
  have css: "''CSS'' \<in> ?N"
    unfolding names by simp
  have l8: "length ?R \<le> 8"
    using spec by (elim conjE)
  have c4: "\<forall>r rs. Some example_gql = Some (r # rs) \<longrightarrow>
      ?T = (\<Sum>repo\<leftarrow>r # rs. sum_list (map edge_size (languages_edges repo)))"
    using spec by (elim conjE)
  have c5: "(\<forall>repo\<in>set (case Some example_gql of None \<Rightarrow> [] | Some rs \<Rightarrow> rs).
       \<forall>edge\<in>set (languages_edges repo). 0 \<le> edge_size edge) \<longrightarrow>
      sum_list (map percentage ?R) \<le> 100 + of_nat (length ?R) / 200 \<and>
      sum_list (map percentage ?R) \<le> 10004 / 100 \<and>
      (\<forall>s\<in>set ?R. ?T \<noteq> 0 \<longrightarrow>
         \<bar>percentage s - 100 * of_int (bytes s) / of_int ?T\<bar> \<le> 1 / 200 + 1 / 10 ^ 13)"
    using spec by (elim conjE)
  have len: "length ?R = min 8 (card ?N)"
    using spec by (elim conjE)
  have ent: "\<forall>s\<in>set ?R. name s \<in> ?N \<and>
      bytes s = input_language_bytes [] (Some example_gql) (name s)"
    using spec by (elim conjE)
  have big: "\<forall>l\<in>?N. l \<in> name ` set ?R \<or>
      length ?R = 8 \<and> (\<forall>s\<in>set ?R. input_language_bytes [] (Some example_gql) l \<le> bytes s)"
    using spec by (elim conjE)
  have "?T = (\<Sum>repo\<leftarrow>hd example_gql # tl example_gql.
      sum_list (map edge_size (languages_edges repo)))"
    using c4 ex by (elim allE impE)
  also have "\<dots> = 30000" by (simp add: example_gql_def)
  finally have t: "?T = 30000" .
  note c5' = mp [OF c5 nn]
  have s: "sum_list (map percentage ?R) \<le> 10004 / 100"
    using c5' by (elim conjE)
  have near: "\<forall>s\<in>set ?R. ?T \<noteq> 0 \<longrightarrow>
         \<bar>percentage s - 100 * of_int (bytes s) / of_int ?T\<bar> \<le> 1 / 200 + 1 / 10 ^ 13"
    using c5' by (elim conjE)
  have l3: "length ?R = 3" unfolding len card by simp
  have "''CSS'' \<in> name ` set ?R \<or>
      length ?R = 8 \<and> (\<forall>s\<in>set ?R. input_language_bytes [] (Some example_gql) ''CSS'' \<le> bytes s)"
    using big css by (rule bspec)
  then have in_css: "''CSS'' \<in> name ` set ?R" unfolding l3 by simp
  from in_css obtain x where x: "x \<in> set ?R" and nx: "name x = ''CSS''"
    by (elim imageE) simp
  have "input_language_bytes [] (Some example_gql) ''CSS'' = 2"
    by (simp add: input_language_bytes_def gql_language_bytes_def example_gql_def)
  then have bx: "bytes x = 2" using bspec [OF ent x] nx by simp
  have "\<bar>percentage x - 100 * of_int (bytes x) / of_int ?T\<bar> \<le> 1 / 200 + 1 / 10 ^ 13"
    using bspec [OF near x] t by simp
  then have px: "\<bar>percentage x - 200 / 30000\<bar> \<le> 1 / 200 + 1 / 10 ^ 13"
    unfolding bx t by simp
  have all: "\<exists>s. s \<in> set ?R \<and> name s = ''CSS'' \<and>
      bytes s = 2 \<and> \<bar>percentage s - 200 / 30000\<bar> \<le> 1 / 200 + 1 / 10 ^ 13"
    by (intro exI [of _ x] conjI x nx bx px)
  show ?thesis by (intro conjI) (rule s, rule l8, rule t, rule l3, rule in_css, rule all)
qed

text \<open>
  Claim C3 as stated fails on the same input: the shares 99.9867, 0.0067 and 0.0067 are
  all rounded up, to 99.99, 0.01 and 0.01, which sum to 100.01.
\<close>

theorem aggregateLanguageStats_sum_counterexample:
  "map percentage (aggregateLanguageStats [] (Some example_gql)) = [9999 / 100, 1 / 100, 1 / 100] \<and>
   sum_list (map percentage (aggregateLanguageStats [] (Some example_gql))) = 10001 / 100 \<and>
   \<not> sum_list (map percentage (aggregateLanguageStats [] (Some example_gql))) \<le> 100"
proof -
  have p: "map percentage (aggregateLanguageStats [] (Some example_gql))
      = [9999 / 100, 1 / 100, 1 / 100]"
    by code_simp
  then show ?thesis by simp
qed

section \<open>Normalising a handle\<close>

lemma handle_char_plain:
  "handle_char c \<Longrightarrow> \<not> is_space c \<and> c \<notin> set ''/?#'' \<and> c \<noteq> CHR ''@''"
  by (auto simp: handle_char_def is_space_def)

lemma lower_ascii_cases:
  "lower_ascii c = c \<or> (97 \<le> (of_char (lower_ascii c) :: nat) \<and> (of_char (lower_ascii c) :: nat) \<le> 122
     \<and> (of_char c :: nat) + 32 = of_char (lower_ascii c))"
proof (cases "65 \<le> (of_char c :: nat) \<and> (of_char c :: nat) \<le> 90")
  case False
  then show ?thesis by (simp add: lower_ascii_def)
next
  case True
  then have "(of_char (lower_ascii c) :: nat) = (of_char c + 32) mod 256"
    by (simp add: lower_ascii_def)
  also have "\<dots> = of_char c + 32" using True by simp
  finally show ?thesis using True by simp
qed

lemma lower_ascii_slash: "lower_ascii c = CHR ''/'' \<Longrightarrow> c = CHR ''/''"
  using lower_ascii_cases [of c] by auto

lemma lower_ascii_g: "lower_ascii c = CHR ''g'' \<Longrightarrow> c = CHR ''g'' \<or> c = CHR ''G''"
proof -
  assume l: "lower_ascii c = CHR ''g''"
  from lower_ascii_cases [of c] show ?thesis
  proof
    assume "lower_ascii c = c"
    with l show ?thesis by simp
  next
    assume "97 \<le> (of_char (lower_ascii c) :: nat) \<and> (of_char (lower_ascii c) :: nat) \<le> 122
     \<and> (of_char c :: nat) + 32 = of_char (lower_ascii c)"
    with l have "(of_char c :: nat) = of_char (CHR ''G'')" by simp
    then have "c = CHR ''G''" by (simp only: of_char_eq_iff)
    then show ?thesis by simp
  qed
qed

lemma host_here_slash: "host_here s \<Longrightarrow> CHR ''/'' \<in> set s"
proof -
  assume hh: "host_here s"
  then have ne: "take 11 s \<noteq> []" by (auto simp: host_here_def)
  from hh have "last (map lower_ascii (take 11 s)) = CHR ''/''"
    by (simp add: host_here_def)
  with ne have "lower_ascii (last (take 11 s)) = CHR ''/''" by (simp add: last_map)
  then have "last (take 11 s) = CHR ''/''" by (rule lower_ascii_slash)
  moreover from ne have "last (take 11 s) \<in> set (take 11 s)" by (rule last_in_set)
  ultimately show ?thesis by (auto dest: in_set_takeD)
qed

lemma host_here_g: "host_here (c # cs) \<Longrightarrow> c = CHR ''g'' \<or> c = CHR ''G''"
  by (rule lower_ascii_g) (simp add: host_here_def)

lemma urlMatch_no_slash: "CHR ''/'' \<notin> set s \<Longrightarrow> urlMatch s = None"
proof (induction s)
  case Nil
  then show ?case by simp
next
  case (Cons c cs)
  then have "\<not> host_here (c # cs)" using host_here_slash by blast
  with Cons show ?case by simp
qed

lemma urlMatch_skip:
  "\<forall>c\<in>set pre. c \<noteq> CHR ''g'' \<and> c \<noteq> CHR ''G'' \<Longrightarrow> urlMatch (pre @ x) = urlMatch x"
proof (induction pre)
  case Nil
  then show ?case by simp
next
  case (Cons c pre)
  then have "\<not> host_here (c # pre @ x)" using host_here_g by fastforce
  with Cons show ?case by simp
qed

lemma segment_handle:
  assumes "list_all handle_char h" "suf = [] \<or> hd suf \<in> set ''/?#''"
  shows "segment (h @ suf) = h"
proof -
  have "\<forall>c\<in>set h. c \<notin> set ''/?#''" using assms(1) handle_char_plain by (auto simp: list_all_iff)
  then have "segment (h @ suf) = h @ segment suf"
    unfolding segment_def by (simp add: takeWhile_append2)
  moreover have "segment suf = []" using assms(2) by (cases suf) (auto simp: segment_def)
  ultimately show ?thesis by simp
qed

lemma urlMatch_host:
  assumes host: "map lower_ascii host = ''github.com/''"
    and h: "valid_handle h" and suf: "suf = [] \<or> hd suf \<in> set ''/?#''"
  shows "urlMatch (host @ h @ suf) = Some h"
proof -
  from host have "length (map lower_ascii host) = length ''github.com/''" by simp
  then have len: "length host = 11" by simp
  then obtain c cs where cs: "host = c # cs" by (cases host) auto
  have here: "host_here (host @ h @ suf)" using host len by (simp add: host_here_def)
  have "segment (drop 11 (host @ h @ suf)) = h"
    using len h suf by (simp add: segment_handle valid_handle_def)
  with here h show ?thesis unfolding cs by (simp add: valid_handle_def)
qed

lemma dropWhile_spaces:
  "list_all is_space ws \<Longrightarrow> xs \<noteq> [] \<Longrightarrow> \<not> is_space (hd xs) \<Longrightarrow>
     dropWhile is_space (ws @ xs) = xs"
  by (induction ws) (auto simp: neq_Nil_conv)

lemma trim_core:
  assumes "list_all is_space ws1" "list_all is_space ws2"
    and "core \<noteq> []" "\<not> is_space (hd core)" "\<not> is_space (last core)"
  shows "trim (ws1 @ core @ ws2) = core"
proof -
  have 1: "dropWhile is_space (ws1 @ core @ ws2) = core @ ws2"
    using assms(1,3,4) by (intro dropWhile_spaces) simp_all
  have "dropWhile is_space (rev ws2 @ rev core) = rev core"
    using assms(2,3,5) by (intro dropWhile_spaces) (simp_all add: hd_rev)
  then have 2: "dropWhile is_space (rev (core @ ws2)) = rev core" by simp
  show ?thesis by (simp only: trim_def 1 2 rev_rev_ident)
qed

lemma valid_handle_ends:
  assumes "valid_handle h"
  shows "h \<noteq> []" "\<not> is_space (hd h)" "\<not> is_space (last h)" "hd h \<noteq> CHR ''@''"
    "CHR ''/'' \<notin> set h"
proof -
  from assms show ne: "h \<noteq> []" by (simp add: valid_handle_def)
  from assms have all: "\<forall>c\<in>set h. handle_char c" by (simp add: valid_handle_def list_all_iff)
  from ne all have "handle_char (hd h)" "handle_char (last h)" by simp_all
  then show "\<not> is_space (hd h)" "\<not> is_space (last h)" "hd h \<noteq> CHR ''@''"
    using handle_char_plain by blast+
  show "CHR ''/'' \<notin> set h"
  proof
    assume "CHR ''/'' \<in> set h"
    with all have "handle_char CHR ''/''" by blast
    then show False by (simp add: handle_char_def)
  qed
qed

lemma sanitizeLogin_bare:
  assumes h: "valid_handle h" and ws: "list_all is_space ws1" "list_all is_space ws2"
  shows "sanitizeLogin (ws1 @ h @ ws2) = Inr h"
proof -
  note e = valid_handle_ends [OF h]
  have t: "trim (ws1 @ h @ ws2) = h" using ws e(1-3) by (rule trim_core)
  have u: "urlMatch h = None" using e(5) by (rule urlMatch_no_slash)
  show ?thesis
    unfolding sanitizeLogin_def t Let_def u using e(1,4) by (auto split: list.splits)
qed

lemma sanitizeLogin_at:
  assumes h: "valid_handle h" and ws: "list_all is_space ws1" "list_all is_space ws2"
  shows "sanitizeLogin (ws1 @ (CHR ''@'' # h) @ ws2) = Inr h"
proof -
  note e = valid_handle_ends [OF h]
  have t: "trim (ws1 @ (CHR ''@'' # h) @ ws2) = CHR ''@'' # h"
    using ws e(1,3) by (intro trim_core) (simp_all add: is_space_def)
  have u: "urlMatch (CHR ''@'' # h) = None"
    using e(5) by (intro urlMatch_no_slash) simp
  show ?thesis
    unfolding sanitizeLogin_def t Let_def u by simp
qed

lemma sanitizeLogin_url:
  assumes h: "valid_handle h" and ws: "list_all is_space ws1" "list_all is_space ws2"
    and host: "map lower_ascii host = ''github.com/''"
    and pre: "\<forall>c\<in>set pre. \<not> is_space c \<and> c \<noteq> CHR ''g'' \<and> c \<noteq> CHR ''G''"
    and suf: "suf = [] \<or> hd suf \<in> set ''/?#''" "\<forall>c\<in>set suf. \<not> is_space c"
  shows "sanitizeLogin (ws1 @ (pre @ host @ h @ suf) @ ws2) = Inr h"
proof -
  note e = valid_handle_ends [OF h]
  let ?core = "pre @ host @ h @ suf"
  from host have "length (map lower_ascii host) = length ''github.com/''" by simp
  then have len: "length host = 11" by simp
  then obtain c cs where cs: "host = c # cs" by (cases host) auto
  with host have "lower_ascii c = CHR ''g''" by simp
  then have c: "\<not> is_space c" using lower_ascii_g [of c] by (auto simp: is_space_def)
  have ne: "?core \<noteq> []" using e(1) by simp
  have hd: "\<not> is_space (hd ?core)"
    using pre c cs by (cases pre) simp_all
  have lst: "\<not> is_space (last ?core)"
    using suf(2) e(1,3) by (cases suf rule: rev_cases) simp_all
  have t: "trim (ws1 @ ?core @ ws2) = ?core" using ws ne hd lst by (rule trim_core)
  have "urlMatch ?core = urlMatch (host @ h @ suf)"
    using pre by (intro urlMatch_skip) simp
  also have "\<dots> = Some h" using host h suf(1) by (rule urlMatch_host)
  finally have m: "urlMatch ?core = Some h" .
  show ?thesis
    unfolding sanitizeLogin_def t Let_def m using ne by simp
qed

lemma sanitizeLogin_empty:
  "sanitizeLogin input = Inl (Error ''GitHub username cannot be empty'') \<longleftrightarrow> trim input = []"
  by (auto simp: sanitizeLogin_def Let_def split: option.splits list.splits)

text \<open>
  Claim C6. Let \<open>h\<close> be a valid handle, and let white space stand around the input.
  The bare form \<open>h\<close>, the form \<open>@h\<close> and a profile URL, which is a prefix without
  the letter g (such as \<open>https://\<close> or \<open>https://www.\<close>), the host \<open>github.com/\<close> in
  any case, the handle, and nothing more or a rest that starts with \<open>/\<close>, \<open>?\<close> or
  \<open>#\<close>, all normalise to \<open>h\<close>, so their cache keys are the same. \<open>sanitizeLogin\<close>
  throws its error exactly when the trimmed input is empty.
\<close>

theorem sanitizeLogin_spec:
  assumes h: "valid_handle h" and ws: "list_all is_space ws1" "list_all is_space ws2"
    and host: "map lower_ascii host = ''github.com/''"
    and pre: "\<forall>c\<in>set pre. \<not> is_space c \<and> c \<noteq> CHR ''g'' \<and> c \<noteq> CHR ''G''"
    and suf: "suf = [] \<or> hd suf \<in> set ''/?#''" "\<forall>c\<in>set suf. \<not> is_space c"
  shows "sanitizeLogin (ws1 @ h @ ws2) = Inr h \<and>
         sanitizeLogin (ws1 @ (CHR ''@'' # h) @ ws2) = Inr h \<and>
         sanitizeLogin (ws1 @ (pre @ host @ h @ suf) @ ws2) = Inr h \<and>
         cacheKey (ws1 @ h @ ws2) = Inr (toLowerCase h) \<and>
         cacheKey (ws1 @ (CHR ''@'' # h) @ ws2) = cacheKey (ws1 @ h @ ws2) \<and>
         cacheKey (ws1 @ (pre @ host @ h @ suf) @ ws2) = cacheKey (ws1 @ h @ ws2) \<and>
         (sanitizeLogin input = Inl (Error ''GitHub username cannot be empty'') \<longleftrightarrow> trim input = [])"
  using sanitizeLogin_bare [OF h ws] sanitizeLogin_at [OF h ws]
    sanitizeLogin_url [OF h ws host pre suf] sanitizeLogin_empty [of input]
  by (simp add: cacheKey_def)

text \<open>
  Claim C6 on the handle \<open>Octo-Cat\<close>, bare, with \<open>@\<close>, and as the URL
  \<open>https://www.GitHub.com/Octo-Cat/repos?tab=stars\<close>: the key is \<open>octo-cat\<close> each time.
\<close>

theorem sanitizeLogin_spec_witness:
  "sanitizeLogin ''Octo-Cat'' = Inr ''Octo-Cat'' \<and>
   sanitizeLogin ''@Octo-Cat'' = Inr ''Octo-Cat'' \<and>
   sanitizeLogin ''https://www.GitHub.com/Octo-Cat/repos?tab=stars'' = Inr ''Octo-Cat'' \<and>
   cacheKey ''https://www.GitHub.com/Octo-Cat/repos?tab=stars'' = cacheKey ''Octo-Cat'' \<and>
   cacheKey ''Octo-Cat'' = Inr ''octo-cat''"
proof -
  have h: "valid_handle ''Octo-Cat''" by (simp add: valid_handle_def handle_char_def)
  have ws: "list_all is_space []" by simp
  have host: "map lower_ascii ''GitHub.com/'' = ''github.com/''" by code_simp
  have pre: "\<forall>c\<in>set ''https://www.''. \<not> is_space c \<and> c \<noteq> CHR ''g'' \<and> c \<noteq> CHR ''G''"
    by (simp add: is_space_def)
  have suf: "''/repos?tab=stars'' = [] \<or> hd ''/repos?tab=stars'' \<in> set ''/?#''"
    "\<forall>c\<in>set ''/repos?tab=stars''. \<not> is_space c"
    by (simp_all add: is_space_def)
  have low: "toLowerCase ''Octo-Cat'' = ''octo-cat''" by code_simp
  from sanitizeLogin_spec [OF h ws ws host pre suf, of "[]"] low show ?thesis by simp
qed

section \<open>The summary and the meme prompt\<close>

















end
